theory Spec2Isabelle
  imports Complex_Main "HOL-Library.Word" "HOL-Library.Sublist"
begin

section \<open>Strings and numbers of the source\<close>

text \<open>
  A JavaScript string is a sequence of UTF-16 code units, and \<open>text[i]\<close>, \<open>length\<close>,
  \<open>trim\<close>, \<open>startsWith\<close> and \<open>includes\<close> all work on code units. A code unit is a
  16-bit word; \<open>js ''abc''\<close> writes a string literal of the source. JavaScript numbers
  are modelled as mathematical reals: the rounding and the overflow of IEEE doubles are
  not modelled.
\<close>

type_synonym jschar = "16 word"
type_synonym jsstring = "jschar list"

definition js :: "string \<Rightarrow> jsstring" where
  "js s = map of_char s"

definition isWhiteSpace :: "jschar \<Rightarrow> bool" where
  \<comment> \<open>ECMAScript WhiteSpace and LineTerminator, the code units \<open>String.prototype.trim\<close> strips:
      TAB, LF, VT, FF, CR, SP, NBSP, U+1680, U+2000..U+200A, U+2028, U+2029, U+202F, U+205F,
      U+3000, U+FEFF.\<close>
  "isWhiteSpace c =
     (c \<in> set [9, 10, 11, 12, 13, 32, 160, 5760, 8232, 8233, 8239, 8287, 12288, 65279]
      \<or> (8192 \<le> c \<and> c \<le> 8202))"

definition trim :: "jsstring \<Rightarrow> jsstring" where
  "trim s = rev (dropWhile isWhiteSpace (rev (dropWhile isWhiteSpace s)))"

definition startsWith :: "jsstring \<Rightarrow> jsstring \<Rightarrow> bool" where
  "startsWith s p = prefix p s"

definition str_includes :: "jsstring \<Rightarrow> jsstring \<Rightarrow> bool" where
  "str_includes s p = sublist p s"

section \<open>typer.js: pacing\<close>

definition pauses :: "(jschar \<times> real) list" where
  "pauses =
     [(of_char CHR ''.'', 400), (of_char CHR ''!'', 350), (of_char CHR ''?'', 380),
      (of_char CHR '','', 120), (of_char CHR '';'', 180), (of_char CHR '':'', 150),
      (10, 200)]"

definition punctuationDelay :: "jschar \<Rightarrow> real" where
  \<comment> \<open>\<open>pauses[char] ?? 0\<close>, for the one-unit string \<open>char\<close>\<close>
  "punctuationDelay char = (case map_of pauses char of Some ms \<Rightarrow> ms | None \<Rightarrow> 0)"

definition wpmToMsPerChar :: "real \<Rightarrow> real" where
  "wpmToMsPerChar wpm = (let charsPerMinute = wpm * 6 in 60000 / charsPerMinute)"

text \<open>
  \<open>toLowerCase\<close> and \<open>toUpperCase\<close> are built-ins of the language. They are written out
  for the code units on which the program depends on their result: the Basic Latin
  letters and U+212A (KELVIN SIGN, whose lower case is \<open>k\<close> and which is its own upper
  case). Every other code unit is returned as it is: Unicode lower-cases no other code
  unit to a single Basic Latin letter, so the result is never a key of
  \<open>KEYBOARD_NEIGHBORS\<close>, which is all the program asks of it.
\<close>

definition toLowerCase :: "jsstring \<Rightarrow> jsstring" where
  "toLowerCase s =
     map (\<lambda>c. if of_char CHR ''A'' \<le> c \<and> c \<le> of_char CHR ''Z'' then c + 32
              else if c = 0x212A then of_char CHR ''k'' else c) s"

definition toUpperCase :: "jsstring \<Rightarrow> jsstring" where
  "toUpperCase s =
     map (\<lambda>c. if of_char CHR ''a'' \<le> c \<and> c \<le> of_char CHR ''z'' then c - 32 else c) s"

definition KEYBOARD_NEIGHBORS :: "(jsstring \<times> jsstring list) list" where
  "KEYBOARD_NEIGHBORS =
     [(js ''a'', map js [''q'', ''s'', ''w'', ''z'']), (js ''b'', map js [''v'', ''n'', ''g'', ''h'']),
      (js ''c'', map js [''x'', ''v'', ''d'', ''f'']), (js ''d'', map js [''s'', ''f'', ''e'', ''r'']),
      (js ''e'', map js [''w'', ''r'', ''d'', ''f'']), (js ''f'', map js [''d'', ''g'', ''r'', ''t'']),
      (js ''g'', map js [''f'', ''h'', ''t'', ''y'']), (js ''h'', map js [''g'', ''j'', ''y'', ''u'']),
      (js ''i'', map js [''u'', ''o'', ''j'', ''k'']), (js ''j'', map js [''h'', ''k'', ''u'', ''i'']),
      (js ''k'', map js [''j'', ''l'', ''i'', ''o'']), (js ''l'', map js [''k'', ''o'', ''p'']),
      (js ''m'', map js [''n'', ''j'', ''k'']), (js ''n'', map js [''b'', ''m'', ''h'', ''j'']),
      (js ''o'', map js [''i'', ''p'', ''k'', ''l'']), (js ''p'', map js [''o'', ''l'']),
      (js ''q'', map js [''a'', ''w'', ''s'']), (js ''r'', map js [''e'', ''t'', ''d'', ''f'']),
      (js ''s'', map js [''a'', ''d'', ''q'', ''w'']), (js ''t'', map js [''r'', ''y'', ''f'', ''g'']),
      (js ''u'', map js [''y'', ''i'', ''h'', ''j'']), (js ''v'', map js [''c'', ''b'', ''f'', ''g'']),
      (js ''w'', map js [''q'', ''e'', ''a'', ''s'']), (js ''x'', map js [''z'', ''c'', ''s'', ''d'']),
      (js ''y'', map js [''t'', ''u'', ''g'', ''h'']), (js ''z'', map js [''a'', ''s'', ''x''])]"

section \<open>typer.js: the typing engine\<close>

text \<open>
  What the engine does to the outside is a trace of events: the sleeps it awaits, the
  click that focuses the editor, the keyboard operations that succeeded and the progress
  callbacks. What the outside does to the engine is an environment: the results of the
  successive calls of \<open>Math.random()\<close>, the answers of the page to \<open>count()\<close> and
  \<open>click()\<close> for each selector, and whether the k-th keyboard operation is rejected. The
  stop and pause predicates are closures over state the engine does not see; they are
  given by their answers, \<open>shouldStop opts i\<close> for the call made before character \<open>i\<close>
  (the loop calls it once per character) and \<open>isPaused opts k\<close> for the k-th call.
  The callback \<open>onProgress\<close> is recorded as an event and does not throw.
\<close>

datatype key = Backspace | Enter

datatype event =
    Sleep real
  | Click string
  | KeyboardType jsstring
  | KeyboardPress key
  | Progress jschar real

datatype error = DriverError nat | TypeError | NoEssayContent jsstring

record environment =
  random_at :: "nat \<Rightarrow> real"
  count_of :: "string \<Rightarrow> error + nat"
  click_error :: "string \<Rightarrow> error option"
  keyboard_error :: "nat \<Rightarrow> error option"

record options =
  wpm :: real
  wpmVariance :: real
  simulateTypos :: bool
  typoChance :: real
  punctuationPauses :: bool
  breakEveryChars :: int
  breakDurationMs :: real
  shouldStop :: "nat \<Rightarrow> bool"
  isPaused :: "nat \<Rightarrow> bool"

record tstate =
  rnd_calls :: nat
  pause_calls :: nat
  kb_calls :: nat
  trace :: "event list"

definition Math_random :: "environment \<Rightarrow> tstate \<Rightarrow> real \<times> tstate" where
  "Math_random env st = (random_at env (rnd_calls st), st\<lparr>rnd_calls := Suc (rnd_calls st)\<rparr>)"

definition Math_round :: "real \<Rightarrow> real" where
  "Math_round x = of_int \<lfloor>x + 1 / 2\<rfloor>"

definition sleep :: "real \<Rightarrow> tstate \<Rightarrow> tstate" where
  "sleep ms st = st\<lparr>trace := trace st @ [Sleep ms]\<rparr>"

definition randomDelay :: "environment \<Rightarrow> real \<Rightarrow> real \<Rightarrow> tstate \<Rightarrow> real \<times> tstate" where
  "randomDelay env minMs maxMs st =
     (let range = maxMs - minMs + 1;
          (r, st') = Math_random env st
      in (of_int \<lfloor>r * range\<rfloor> + minMs, st'))"

definition keyboard_op :: "environment \<Rightarrow> event \<Rightarrow> tstate \<Rightarrow> (error \<times> tstate) + tstate" where
  \<comment> \<open>\<open>await page.keyboard.type(...)\<close> or \<open>press(...)\<close>: rejected, or done and recorded\<close>
  "keyboard_op env ev st =
     (let st' = st\<lparr>kb_calls := Suc (kb_calls st)\<rparr> in
      case keyboard_error env (kb_calls st) of
        Some e \<Rightarrow> Inl (e, st')
      | None \<Rightarrow> Inr (st'\<lparr>trace := trace st' @ [ev]\<rparr>))"

fun focusLoop :: "environment \<Rightarrow> string list \<Rightarrow> tstate \<Rightarrow> (error \<times> tstate) + tstate" where
  "focusLoop env [] st = Inr st"
| "focusLoop env (sel # sels) st =
     (case count_of env sel of
        Inl e \<Rightarrow> Inl (e, st)
      | Inr n \<Rightarrow>
          if n > 0 then
            (case click_error env sel of
               None \<Rightarrow> Inr (sleep 400 (st\<lparr>trace := trace st @ [Click sel]\<rparr>))
             | Some e \<Rightarrow> focusLoop env sels st)
          else focusLoop env sels st)"

definition focusSelectors :: "string list" where
  "focusSelectors = [''.kix-appview-editor'', ''#canvas'', ''body'']"

partial_function (option) pauseLoop :: "(nat \<Rightarrow> bool) \<Rightarrow> tstate \<Rightarrow> tstate option" where
  \<comment> \<open>\<open>while (isPaused()) { await sleep(200); }\<close>\<close>
  "pauseLoop paused st =
     (let st' = st\<lparr>pause_calls := Suc (pause_calls st)\<rparr> in
      if paused (pause_calls st) then pauseLoop paused (sleep 200 st') else Some st')"

definition typoStep ::
  "environment \<Rightarrow> options \<Rightarrow> jschar \<Rightarrow> real \<Rightarrow> tstate \<Rightarrow> (error \<times> tstate) + tstate" where
  \<comment> \<open>the block \<open>if (simulateTypos && typoChance > 0 && Math.random() < typoChance) {...}\<close>;
      \<open>Math.random()\<close> is called only when the first two conjuncts hold. An index outside
      the neighbour list reads \<open>undefined\<close>, on which the emission throws; this cannot
      happen for a random number in [0, 1).\<close>
  "typoStep env opts char delay st =
     (if simulateTypos opts \<and> typoChance opts > 0 then
        (let (roll, st1) = Math_random env st in
         if roll < typoChance opts then
           (let lower = toLowerCase [char] in
            case map_of KEYBOARD_NEIGHBORS lower of
              None \<Rightarrow> Inr st1
            | Some neighbors \<Rightarrow>
                if char \<noteq> 10 then
                  (let (r, st2) = Math_random env st1;
                       idx = \<lfloor>r * real (length neighbors)\<rfloor>;
                       upper = ([char] = toUpperCase [char] \<and> [char] \<noteq> toLowerCase [char]);
                       st3 = sleep delay st2
                   in if 0 \<le> idx \<and> idx < int (length neighbors) then
                        (let wrongChar = neighbors ! nat idx in
                         case keyboard_op env
                                (KeyboardType (if upper then toUpperCase wrongChar else wrongChar)) st3 of
                           Inl err \<Rightarrow> Inl err
                         | Inr st4 \<Rightarrow>
                             (let (d1, st5) = randomDelay env 80 200 st4 in
                              case keyboard_op env (KeyboardPress Backspace) (sleep d1 st5) of
                                Inl err \<Rightarrow> Inl err
                              | Inr st6 \<Rightarrow>
                                  (let (d2, st7) = randomDelay env 50 120 st6
                                   in Inr (sleep d2 st7))))
                      else Inl (TypeError, st3))
                else Inr st1)
         else Inr st1)
      else Inr st)"

definition typeChar ::
  "environment \<Rightarrow> options \<Rightarrow> real \<Rightarrow> jsstring \<Rightarrow> nat \<Rightarrow> tstate \<Rightarrow> (error \<times> tstate) + tstate" where
  \<comment> \<open>the body of the loop after the stop and pause checks, for \<open>i < text.length\<close>\<close>
  "typeChar env opts baseMsPerChar text i st =
     (let char = text ! i;
          (r, st1) = Math_random env st;
          variance = (r - 1 / 2) * 2 * wpmVariance opts;
          delay = max 30 (baseMsPerChar + variance * (baseMsPerChar / 20))
      in case typoStep env opts char delay st1 of
           Inl err \<Rightarrow> Inl err
         | Inr st2 \<Rightarrow>
             (case keyboard_op env
                     (if char = 10 then KeyboardPress Enter else KeyboardType [char])
                     (sleep (Math_round delay) st2) of
                Inl err \<Rightarrow> Inl err
              | Inr st3 \<Rightarrow>
                  (let st4 = st3\<lparr>trace := trace st3
                                @ [Progress char (real (i + 1) / real (length text))]\<rparr>;
                       st5 = (if punctuationPauses opts \<and> punctuationDelay char > 0 then
                                (let (d, st') = randomDelay env 0 200 st4
                                 in sleep (punctuationDelay char + d) st')
                              else st4);
                       st6 = (if breakEveryChars opts > 0
                                 \<and> int (i + 1) mod breakEveryChars opts = 0
                                 \<and> i < length text - 1
                              then sleep (breakDurationMs opts) st5 else st5);
                       (d, st7) = randomDelay env 0 25 st6
                   in Inr (sleep d st7))))"

function typeLoop ::
  "environment \<Rightarrow> options \<Rightarrow> real \<Rightarrow> jsstring \<Rightarrow> nat \<Rightarrow> tstate
     \<Rightarrow> ((error + unit) \<times> tstate) option" where
  "typeLoop env opts baseMsPerChar text i st =
     (if i < length text then
        if shouldStop opts i then Some (Inr (), st)
        else
          (case pauseLoop (isPaused opts) st of
             None \<Rightarrow> None
           | Some st1 \<Rightarrow>
               (case typeChar env opts baseMsPerChar text i st1 of
                  Inl (err, st2) \<Rightarrow> Some (Inl err, st2)
                | Inr st2 \<Rightarrow> typeLoop env opts baseMsPerChar text (Suc i) st2))
      else Some (Inr (), st))"
  by pat_completeness auto
termination
  by (relation "measure (\<lambda>(env, opts, baseMsPerChar, text, i, st). length text - i)") auto

declare typeLoop.simps [simp del]

definition initial :: tstate where
  "initial = \<lparr>rnd_calls = 0, pause_calls = 0, kb_calls = 0, trace = []\<rparr>"

definition typeWithHumanSpeed ::
  "environment \<Rightarrow> jsstring \<Rightarrow> options \<Rightarrow> ((error + unit) \<times> tstate) option" where
  \<comment> \<open>\<open>None\<close>: the promise never settles (paused for ever); \<open>Inl\<close>: it rejects; \<open>Inr\<close>: it
      resolves\<close>
  "typeWithHumanSpeed env text opts =
     (let baseMsPerChar = wpmToMsPerChar (wpm opts) in
      case focusLoop env focusSelectors initial of
        Inl (err, st) \<Rightarrow> Some (Inl err, st)
      | Inr st \<Rightarrow> typeLoop env opts baseMsPerChar text 0 st)"

section \<open>Reading a trace\<close>

text \<open>
  The definitions of this section are not code of the program: they say how the claims
  read a trace. The visible events are the keyboard operations and the progress
  callbacks. \<open>charBlock\<close> is what one character of the content contributes to them: the
  emission of the character (\<open>Enter\<close> for a line break) and its progress callback,
  preceded, when a typo was simulated, by the wrong string and one \<open>Backspace\<close>.
  \<open>committed\<close> is the content an editor holds after the keyboard operations of a trace,
  the cursor staying at the end: a typed string is appended, \<open>Enter\<close> appends a line break
  and \<open>Backspace\<close> removes the last code unit. The environment assumptions are:
  \<open>random_ok\<close>, every result of \<open>Math.random()\<close> lies in [0, 1); \<open>failure_free\<close>, no call
  of the page is rejected; \<open>pauses_end\<close>, the pause predicate is false again after every
  call.
\<close>

fun isVisible :: "event \<Rightarrow> bool" where
  "isVisible (Sleep ms) = False"
| "isVisible (Click sel) = False"
| "isVisible e = True"

definition visible :: "event list \<Rightarrow> event list" where
  "visible tr = filter isVisible tr"

definition emission :: "jschar \<Rightarrow> event" where
  "emission c = (if c = 10 then KeyboardPress Enter else KeyboardType [c])"

definition perturbable :: "jschar \<Rightarrow> bool" where
  "perturbable c = (map_of KEYBOARD_NEIGHBORS (toLowerCase [c]) \<noteq> None \<and> c \<noteq> 10)"

definition isUpperCase :: "jsstring \<Rightarrow> bool" where
  "isUpperCase s = (s = toUpperCase s \<and> s \<noteq> toLowerCase s)"

definition wrongChars :: "jschar \<Rightarrow> jsstring list" where
  "wrongChars c =
     (case map_of KEYBOARD_NEIGHBORS (toLowerCase [c]) of
        None \<Rightarrow> []
      | Some neighbors \<Rightarrow> map (\<lambda>w. if isUpperCase [c] then toUpperCase w else w) neighbors)"

definition charBlock :: "jsstring \<Rightarrow> nat \<Rightarrow> jsstring option \<Rightarrow> event list" where
  "charBlock text i typo =
     (case typo of None \<Rightarrow> [] | Some w \<Rightarrow> [KeyboardType w, KeyboardPress Backspace])
     @ [emission (text ! i), Progress (text ! i) (real (i + 1) / real (length text))]"

fun blocks :: "jsstring \<Rightarrow> nat \<Rightarrow> jsstring option list \<Rightarrow> event list" where
  "blocks text i [] = []"
| "blocks text i (typo # typos) = charBlock text i typo @ blocks text (Suc i) typos"

definition typoOK :: "options \<Rightarrow> jschar \<Rightarrow> jsstring option \<Rightarrow> bool" where
  "typoOK opts c typo =
     (case typo of
        None \<Rightarrow> \<not> (simulateTypos opts \<and> typoChance opts \<ge> 1 \<and> perturbable c)
      | Some w \<Rightarrow> simulateTypos opts \<and> typoChance opts > 0 \<and> perturbable c \<and> w \<in> set (wrongChars c))"

fun typosOK :: "options \<Rightarrow> jsstring \<Rightarrow> nat \<Rightarrow> jsstring option list \<Rightarrow> bool" where
  "typosOK opts text i [] = True"
| "typosOK opts text i (typo # typos) = (typoOK opts (text ! i) typo \<and> typosOK opts text (Suc i) typos)"

fun isProgress :: "event \<Rightarrow> bool" where
  "isProgress (Progress c f) = True"
| "isProgress e = False"

definition progressCalls :: "event list \<Rightarrow> event list" where
  "progressCalls tr = filter isProgress tr"

fun isKeyboard :: "event \<Rightarrow> bool" where
  "isKeyboard (KeyboardType s) = True"
| "isKeyboard (KeyboardPress k) = True"
| "isKeyboard e = False"

definition keyboardOps :: "event list \<Rightarrow> event list" where
  "keyboardOps tr = filter isKeyboard tr"

fun applyKey :: "jsstring \<Rightarrow> event \<Rightarrow> jsstring" where
  "applyKey doc (KeyboardType s) = doc @ s"
| "applyKey doc (KeyboardPress Backspace) = butlast doc"
| "applyKey doc (KeyboardPress Enter) = doc @ [10]"
| "applyKey doc e = doc"

definition committed :: "event list \<Rightarrow> jsstring" where
  "committed tr = foldl applyKey [] tr"

definition failure_free :: "environment \<Rightarrow> bool" where
  "failure_free env =
     ((\<forall>sel. \<exists>n. count_of env sel = Inr n) \<and> (\<forall>k. keyboard_error env k = None))"

definition isLowerLetter :: "jschar \<Rightarrow> bool" where
  "isLowerLetter c = (of_char CHR ''a'' \<le> c \<and> c \<le> of_char CHR ''z'')"

definition isUpperLetter :: "jschar \<Rightarrow> bool" where
  "isUpperLetter c = (of_char CHR ''A'' \<le> c \<and> c \<le> of_char CHR ''Z'')"

definition random_ok :: "environment \<Rightarrow> bool" where
  "random_ok env = (\<forall>k. 0 \<le> random_at env k \<and> random_at env k < 1)"

definition pauses_end :: "options \<Rightarrow> bool" where
  "pauses_end opts = (\<forall>k. \<exists>d. \<not> isPaused opts (k + d))"

definition quietEnv :: environment where
  "quietEnv = \<lparr>random_at = (\<lambda>k. 3 / 4), count_of = (\<lambda>sel. Inr 1),
                click_error = (\<lambda>sel. None), keyboard_error = (\<lambda>k. None)\<rparr>"

definition defaultOptions :: options where
  "defaultOptions = \<lparr>wpm = 45, wpmVariance = 10, simulateTypos = False, typoChance = 2 / 100,
     punctuationPauses = True, breakEveryChars = 0, breakDurationMs = 5000,
     shouldStop = (\<lambda>i. False), isPaused = (\<lambda>k. False)\<rparr>"

section \<open>agent.js: target identifiers\<close>

definition isTokenChar :: "jschar \<Rightarrow> bool" where
  \<comment> \<open>the character class \<open>[a-zA-Z0-9_-]\<close>\<close>
  "isTokenChar c =
     ((of_char CHR ''a'' \<le> c \<and> c \<le> of_char CHR ''z'')
      \<or> (of_char CHR ''A'' \<le> c \<and> c \<le> of_char CHR ''Z'')
      \<or> (of_char CHR ''0'' \<le> c \<and> c \<le> of_char CHR ''9'')
      \<or> c = of_char CHR ''_'' \<or> c = of_char CHR ''-'')"

definition isShortForm :: "jsstring \<Rightarrow> bool" where
  \<comment> \<open>\<open>/^[a-zA-Z0-9_-]{20,}$/.test(u)\<close>; without the \<open>m\<close> flag \<open>$\<close> is the end of input\<close>
  "isShortForm u = (20 \<le> length u \<and> list_all isTokenChar u)"

definition normalizeDocUrl :: "jsstring \<Rightarrow> jsstring" where
  "normalizeDocUrl url =
     (let u = trim url in
      if startsWith u (js ''https://docs.google.com/document/d/'') then u
      else if str_includes u (js ''docs.google.com/document'') then u
      else if isShortForm u then js ''https://docs.google.com/document/d/'' @ u @ js ''/edit''
      else u)"

section \<open>agent.js: jobs and their orchestration\<close>

text \<open>
  A job descriptor is an object whose fields may be absent; a field that is absent, or is
  not of the type the program tests for, is \<open>None\<close>. The file system is a function
  \<open>readFile\<close> from the (trimmed) path to the content read, \<open>None\<close> when reading throws.
  Each job runs in its own environment: whether \<open>context.newPage()\<close>, \<open>page.goto\<close> and
  \<open>page.waitForLoadState\<close> are rejected, and the environment of its page for the typing
  engine. The callbacks \<open>onJobStart\<close> and \<open>onJobComplete\<close> are recorded as events of the
  job and do not throw; \<open>onJobProgress\<close> is the \<open>Progress\<close> event of the typing trace. The
  result of a job is \<open>Inl\<close> when its promise rejects and \<open>Inr\<close> when it resolves. The wait
  for the selector of the editor cannot fail (its rejection is caught) and leaves no event.

  In concurrent mode the events of different jobs interleave in an order that depends on
  time. The model does not order them: the result of \<open>runAgent\<close> holds, for each job that
  was started, its result and its own events, and \<open>Rejected errs\<close> says that the promise
  of \<open>runAgent\<close> rejects with one of \<open>errs\<close> (\<open>Promise.all\<close> rejects with the error of
  the job that fails first; in sequential mode there is exactly one). The launch of the
  browser is the field \<open>launch_error\<close>; its options are not modelled.
\<close>

definition hasEssayExtension :: "jsstring \<Rightarrow> bool" where
  \<comment> \<open>\<open>/\.(txt|md|docx?)$/i.test(s)\<close>: the flag \<open>i\<close> identifies a Basic Latin letter of the
      pattern with its two cases only\<close>
  "hasEssayExtension s =
     (let folded = map (\<lambda>c. if of_char CHR ''A'' \<le> c \<and> c \<le> of_char CHR ''Z'' then c + 32 else c) s
      in suffix (js ''.txt'') folded \<or> suffix (js ''.md'') folded
         \<or> suffix (js ''.doc'') folded \<or> suffix (js ''.docx'') folded)"

definition loadEssay :: "(jsstring \<Rightarrow> jsstring option) \<Rightarrow> jsstring option \<Rightarrow> jsstring" where
  \<comment> \<open>\<open>readFile\<close> gives the content of the file a path resolves to, or \<open>None\<close> when reading
      it throws; an argument that is not a string is \<open>None\<close>\<close>
  "loadEssay readFile essay =
     (case essay of
        None \<Rightarrow> []
      | Some e \<Rightarrow>
          if e = [] then []
          else
            (let trimmed = trim e;
                 mightBePath = (\<not> str_includes trimmed [10]
                    \<and> (str_includes trimmed (js ''/'') \<or> str_includes trimmed [92]
                        \<or> hasEssayExtension trimmed))
             in if mightBePath then
                  (case readFile trimmed of Some content \<Rightarrow> trim content | None \<Rightarrow> trimmed)
                else trimmed))"

record job =
  essayContent :: "jsstring option"
  essay :: "jsstring option"
  essayPath :: "jsstring option"
  docUrl :: jsstring
  job_wpm :: "real option"
  job_wpmVariance :: "real option"
  job_simulateTypos :: "bool option"
  job_typoChance :: "real option"
  job_punctuationPauses :: "bool option"
  job_breakEveryChars :: "int option"
  job_breakDurationMs :: "real option"

datatype job_event =
    OnJobStart nat
  | NewPage
  | Goto jsstring
  | WaitForLoadState
  | PageSleep real
  | Typing event
  | OnJobComplete "error option"
  | ClosePage

record job_env =
  newPage_error :: "error option"
  goto_error :: "error option"
  loadState_error :: "error option"
  page :: environment

definition truthy :: "jsstring option \<Rightarrow> bool" where
  "truthy s = (s \<noteq> None \<and> s \<noteq> Some [])"

definition jobOptions :: "job \<Rightarrow> options" where
  "jobOptions job =
     \<lparr>wpm = (case job_wpm job of Some v \<Rightarrow> v | None \<Rightarrow> 45),
      wpmVariance = (case job_wpmVariance job of Some v \<Rightarrow> v | None \<Rightarrow> 10),
      simulateTypos = (case job_simulateTypos job of Some v \<Rightarrow> v | None \<Rightarrow> False),
      typoChance = (case job_typoChance job of Some v \<Rightarrow> v | None \<Rightarrow> 2 / 100),
      punctuationPauses = (case job_punctuationPauses job of Some v \<Rightarrow> v | None \<Rightarrow> True),
      breakEveryChars = (case job_breakEveryChars job of Some v \<Rightarrow> v | None \<Rightarrow> 0),
      breakDurationMs = (case job_breakDurationMs job of Some v \<Rightarrow> v | None \<Rightarrow> 5000),
      shouldStop = (\<lambda>i. False),
      isPaused = (\<lambda>k. False)\<rparr>"

definition jobEssay :: "(jsstring \<Rightarrow> jsstring option) \<Rightarrow> job \<Rightarrow> jsstring" where
  \<comment> \<open>\<open>job.essay || (await loadEssay(job.essayPath || job.essay))\<close>\<close>
  "jobEssay readFile job =
     (case essay job of
        Some e \<Rightarrow> if e \<noteq> [] then e
                  else loadEssay readFile (if truthy (essayPath job) then essayPath job else essay job)
      | None \<Rightarrow> loadEssay readFile (if truthy (essayPath job) then essayPath job else essay job))"

definition runJob ::
  "(jsstring \<Rightarrow> jsstring option) \<Rightarrow> job_env \<Rightarrow> job \<Rightarrow> bool
     \<Rightarrow> ((error + unit) \<times> job_event list) option" where
  "runJob readFile jenv job closeTabOnComplete =
     (let url = normalizeDocUrl (docUrl job);
          content = jobEssay readFile job
      in if content = [] then Some (Inl (NoEssayContent (docUrl job)), [])
         else
           (let started = [OnJobStart (length content)];
                closing = (if closeTabOnComplete then [ClosePage] else [])
            in case newPage_error jenv of
                 Some err \<Rightarrow> Some (Inl err, started)
               | None \<Rightarrow>
                   (case goto_error jenv of
                      Some err \<Rightarrow> Some (Inl err, started @ [NewPage, OnJobComplete (Some err)] @ closing)
                    | None \<Rightarrow>
                        (case loadState_error jenv of
                           Some err \<Rightarrow>
                             Some (Inl err, started @ [NewPage, Goto url, OnJobComplete (Some err)] @ closing)
                         | None \<Rightarrow>
                             (let opened = started @ [NewPage, Goto url, WaitForLoadState, PageSleep 2000]
                              in case typeWithHumanSpeed (page jenv) content (jobOptions job) of
                                   None \<Rightarrow> None
                                 | Some (Inl err, st) \<Rightarrow>
                                     Some (Inl err, opened @ map Typing (trace st)
                                                     @ [OnJobComplete (Some err)] @ closing)
                                 | Some (Inr u, st) \<Rightarrow>
                                     Some (Inr (), opened @ map Typing (trace st)
                                                     @ [OnJobComplete None] @ closing))))))"

definition jobContent :: "(jsstring \<Rightarrow> jsstring option) \<Rightarrow> job \<Rightarrow> jsstring" where
  \<comment> \<open>the variable \<open>essay\<close> of the resolution loop of \<open>runAgent\<close>\<close>
  "jobContent readFile j =
     (case essayContent j of
        Some c \<Rightarrow> trim c
      | None \<Rightarrow> (case essay j of Some e \<Rightarrow> loadEssay readFile (Some e) | None \<Rightarrow> []))"

definition resolveJob :: "(jsstring \<Rightarrow> jsstring option) \<Rightarrow> job \<Rightarrow> job" where
  "resolveJob readFile j =
     j\<lparr>essay := Some (jobContent readFile j), docUrl := normalizeDocUrl (docUrl j)\<rparr>"

datatype console_event = WarnSkipping jsstring | ErrorNoValidJobs | LogAllFinished

fun resolveJobs ::
  "(jsstring \<Rightarrow> jsstring option) \<Rightarrow> job list \<Rightarrow> console_event list \<times> job list" where
  "resolveJobs readFile [] = ([], [])"
| "resolveJobs readFile (j # jobs) =
     (let content = jobContent readFile j;
          (warnings, resolvedJobs) = resolveJobs readFile jobs
      in if content = [] then (WarnSkipping (docUrl j) # warnings, resolvedJobs)
         else (warnings,
               j\<lparr>essay := Some content, docUrl := normalizeDocUrl (docUrl j)\<rparr> # resolvedJobs))"

record run_options =
  sequential :: bool
  closeTabOnComplete :: bool

record world =
  readFile :: "jsstring \<Rightarrow> jsstring option"
  launch_error :: "error option"
  job_env_of :: "nat \<Rightarrow> job_env"

type_synonym job_run = "job \<times> (error + unit) \<times> job_event list"

datatype outcome = Resolved | Rejected "error list"

record agent_result =
  console :: "console_event list"
  resolved :: "job list"
  runs :: "job_run list"
  outcome :: outcome

fun runSequential ::
  "world \<Rightarrow> bool \<Rightarrow> nat \<Rightarrow> job list \<Rightarrow> (job_run list \<times> outcome) option" where
  "runSequential w closeTab i [] = Some ([], Resolved)"
| "runSequential w closeTab i (job # jobs) =
     (case runJob (readFile w) (job_env_of w i) job closeTab of
        None \<Rightarrow> None
      | Some (Inl err, evs) \<Rightarrow> Some ([(job, Inl err, evs)], Rejected [err])
      | Some (Inr u, evs) \<Rightarrow>
          (case runSequential w closeTab (Suc i) jobs of
             None \<Rightarrow> None
           | Some (rs, out) \<Rightarrow> Some ((job, Inr (), evs) # rs, out)))"

fun runParallel ::
  "world \<Rightarrow> bool \<Rightarrow> nat \<Rightarrow> job list \<Rightarrow> (job_run list \<times> error list) option" where
  "runParallel w closeTab i [] = Some ([], [])"
| "runParallel w closeTab i (job # jobs) =
     (case runJob (readFile w) (job_env_of w i) job closeTab of
        None \<Rightarrow> None
      | Some (r, evs) \<Rightarrow>
          (case runParallel w closeTab (Suc i) jobs of
             None \<Rightarrow> None
           | Some (rs, errs) \<Rightarrow>
               Some ((job, r, evs) # rs, (case r of Inl err \<Rightarrow> [err] | Inr u \<Rightarrow> []) @ errs)))"

definition runAgent :: "world \<Rightarrow> job list \<Rightarrow> run_options \<Rightarrow> agent_result option" where
  "runAgent w jobs ro =
     (let (warnings, resolvedJobs) = resolveJobs (readFile w) jobs in
      if resolvedJobs = [] then
        Some \<lparr>console = warnings @ [ErrorNoValidJobs], resolved = [], runs = [], outcome = Resolved\<rparr>
      else
        (case launch_error w of
           Some err \<Rightarrow>
             Some \<lparr>console = warnings, resolved = resolvedJobs, runs = [], outcome = Rejected [err]\<rparr>
         | None \<Rightarrow>
             if sequential ro then
               (case runSequential w (length resolvedJobs > 1 \<and> closeTabOnComplete ro) 0 resolvedJobs of
                  None \<Rightarrow> None
                | Some (rs, out) \<Rightarrow>
                    Some \<lparr>console = warnings @ [LogAllFinished], resolved = resolvedJobs,
                          runs = rs, outcome = out\<rparr>)
             else
               (case runParallel w (closeTabOnComplete ro) 0 resolvedJobs of
                  None \<Rightarrow> None
                | Some (rs, errs) \<Rightarrow>
                    Some \<lparr>console = warnings @ [LogAllFinished], resolved = resolvedJobs,
                          runs = rs, outcome = (if errs = [] then Resolved else Rejected errs)\<rparr>)))"

section \<open>Reading the result of a batch\<close>

text \<open>
  Again not code of the program: \<open>completions\<close> are the calls of \<open>onJobComplete\<close> among
  the events of a job, \<open>isWarning\<close> recognises the warning of a skipped job,
  \<open>resolveJob\<close> (above) names the descriptor that the resolution loop pushes, and the
  remaining definitions are concrete batches and worlds.
\<close>

fun isCompletion :: "job_event \<Rightarrow> bool" where
  "isCompletion (OnJobComplete err) = True"
| "isCompletion ev = False"

definition completions :: "job_event list \<Rightarrow> job_event list" where
  "completions evs = filter isCompletion evs"

fun isWarning :: "console_event \<Rightarrow> bool" where
  "isWarning (WarnSkipping url) = True"
| "isWarning ev = False"

definition inlineJob :: "jsstring \<Rightarrow> jsstring \<Rightarrow> job" where
  "inlineJob content url =
     \<lparr>essayContent = Some content, essay = None, essayPath = None, docUrl = url,
      job_wpm = None, job_wpmVariance = None, job_simulateTypos = None, job_typoChance = None,
      job_punctuationPauses = None, job_breakEveryChars = None, job_breakDurationMs = None\<rparr>"

definition quietJobEnv :: job_env where
  "quietJobEnv = \<lparr>newPage_error = None, goto_error = None, loadState_error = None, page = quietEnv\<rparr>"


definition quietWorld :: world where
  "quietWorld = \<lparr>readFile = (\<lambda>p. None), launch_error = None, job_env_of = (\<lambda>i. quietJobEnv)\<rparr>"

definition batch :: "job list" where
  "batch = [inlineJob (js ''Hello'') (js ''doc-a''), inlineJob (js '' '') (js ''doc-x''),
            inlineJob (js ''Hi'') (js ''doc-b'')]"



section \<open>Pacing: properties\<close>

lemma punctuationDelay_other:
  "c \<notin> fst ` set pauses \<Longrightarrow> punctuationDelay c = 0"
  by (simp add: punctuationDelay_def map_of_eq_None_iff [THEN iffD2])

text \<open>
  Claim C2, as stated: every sentence-ender pauses longer than every clause-separator,
  every clause-separator longer than the line break, and every other character gets 0.
  The table gives the line break 200 ms and the comma 120 ms, so the second comparison
  fails.
\<close>

theorem punctuationDelay_comma_linebreak_counterexample:
  "\<not> (punctuationDelay (of_char CHR '','') > punctuationDelay 10)"
  by (simp add: punctuationDelay_def pauses_def)

text \<open>
  Claim C2, amended: every sentence-ender (\<open>.\<close>, \<open>!\<close>, \<open>?\<close>) pauses longer than every
  clause-separator (\<open>,\<close>, \<open>;\<close>, \<open>:\<close>) and longer than the line break; the line break pauses
  longer than every clause-separator; every clause-separator has a positive pause; every
  character outside the table gets exactly 0; in particular the pause of \<open>.\<close> is longer
  than that of \<open>,\<close>, which is longer than the pause 0 of a character outside the table.
\<close>

theorem punctuationDelay_table:
  "(\<forall>s \<in> {of_char CHR ''.'', of_char CHR ''!'', of_char CHR ''?''}.
      \<forall>c \<in> {of_char CHR '','', of_char CHR '';'', of_char CHR '':''}.
        punctuationDelay s > punctuationDelay c
        \<and> punctuationDelay s > punctuationDelay 10
        \<and> punctuationDelay 10 > punctuationDelay c
        \<and> punctuationDelay c > 0)
   \<and> (\<forall>c. c \<notin> {of_char CHR ''.'', of_char CHR ''!'', of_char CHR ''?'',
                 of_char CHR '','', of_char CHR '';'', of_char CHR '':'', 10}
          \<longrightarrow> punctuationDelay c = 0
              \<and> punctuationDelay (of_char CHR ''.'') > punctuationDelay (of_char CHR '','')
              \<and> punctuationDelay (of_char CHR '','') > punctuationDelay c)"
proof (intro conjI ballI allI impI)
  fix c :: jschar
  assume "c \<notin> {of_char CHR ''.'', of_char CHR ''!'', of_char CHR ''?'',
                 of_char CHR '','', of_char CHR '';'', of_char CHR '':'', 10}"
  then have "c \<notin> fst ` set pauses" by (simp add: pauses_def)
  then have z: "punctuationDelay c = 0" by (rule punctuationDelay_other)
  then show "punctuationDelay c = 0" .
  from z show "punctuationDelay (of_char CHR '','') > punctuationDelay c"
    by (simp add: punctuationDelay_def pauses_def)
qed (auto simp: punctuationDelay_def pauses_def)

theorem punctuationDelay_table_witness:
  "punctuationDelay (of_char CHR ''?'') > punctuationDelay (of_char CHR '';'')
   \<and> punctuationDelay (of_char CHR ''?'') > punctuationDelay 10
   \<and> punctuationDelay 10 > punctuationDelay (of_char CHR '';'')
   \<and> punctuationDelay (of_char CHR '';'') > 0
   \<and> punctuationDelay (of_char CHR ''x'') = 0
   \<and> punctuationDelay (of_char CHR '','') > punctuationDelay (of_char CHR ''x'')"
  using punctuationDelay_table by (simp add: punctuationDelay_def pauses_def)



section \<open>Target identifiers: properties\<close>

lemma dropWhile_self: "xs = [] \<or> \<not> P (hd xs) \<Longrightarrow> dropWhile P xs = xs"
  by (cases xs) auto

lemma trim_fixed:
  assumes "s = [] \<or> (\<not> isWhiteSpace (hd s) \<and> \<not> isWhiteSpace (last s))"
  shows "trim s = s"
proof (cases "s = []")
  case True
  then show ?thesis by (simp add: trim_def)
next
  case False
  with assms have h: "\<not> isWhiteSpace (hd s)" and l: "\<not> isWhiteSpace (last s)" by simp_all
  from h have 1: "dropWhile isWhiteSpace s = s" by (simp add: dropWhile_self)
  from l False have "\<not> isWhiteSpace (hd (rev s))" by (simp add: hd_rev)
  then have 2: "dropWhile isWhiteSpace (rev s) = rev s" by (simp add: dropWhile_self)
  show ?thesis by (simp add: trim_def 1 2)
qed

lemma trim_ends:
  "trim s = [] \<or> (\<not> isWhiteSpace (hd (trim s)) \<and> \<not> isWhiteSpace (last (trim s)))"
proof (cases "trim s = []")
  case False
  let ?a = "dropWhile isWhiteSpace s"
  let ?b = "dropWhile isWhiteSpace (rev ?a)"
  from False have b: "?b \<noteq> []" by (simp add: trim_def)
  then have "\<not> isWhiteSpace (hd ?b)" by (rule hd_dropWhile)
  then have l: "\<not> isWhiteSpace (last (trim s))" using b by (simp add: trim_def last_rev)
  from b have a: "?a \<noteq> []" by fastforce
  then have ha: "\<not> isWhiteSpace (hd ?a)" by (rule hd_dropWhile)
  have "rev ?a = takeWhile isWhiteSpace (rev ?a) @ ?b" by simp
  then have "rev (rev ?a) = rev (takeWhile isWhiteSpace (rev ?a) @ ?b)" by (rule arg_cong)
  then have "?a = rev ?b @ rev (takeWhile isWhiteSpace (rev ?a))" by (simp only: rev_rev_ident rev_append)
  then have "hd ?a = hd (rev ?b @ rev (takeWhile isWhiteSpace (rev ?a)))" by (rule arg_cong)
  then have "hd ?a = hd (rev ?b)" using b by (simp only: hd_append2 rev_is_Nil_conv not_False_eq_True)
  with ha have "\<not> isWhiteSpace (hd (trim s))" by (simp add: trim_def)
  with l show ?thesis by simp
qed simp

lemma trim_idem: "trim (trim s) = trim s"
  using trim_ends [of s] by (rule trim_fixed)

lemma trim_decomposition:
  "\<exists>l r. s = l @ trim s @ r \<and> list_all isWhiteSpace l \<and> list_all isWhiteSpace r"
proof -
  let ?a = "dropWhile isWhiteSpace s"
  let ?l = "takeWhile isWhiteSpace s"
  let ?t = "takeWhile isWhiteSpace (rev ?a)"
  have "rev ?a = ?t @ dropWhile isWhiteSpace (rev ?a)" by simp
  then have "rev (rev ?a) = rev (?t @ dropWhile isWhiteSpace (rev ?a))" by (rule arg_cong)
  then have "?a = trim s @ rev ?t" by (simp only: rev_rev_ident rev_append trim_def)
  moreover have "s = ?l @ ?a" by simp
  ultimately have "s = ?l @ trim s @ rev ?t" by simp
  moreover have "list_all isWhiteSpace ?l" by (auto simp: list_all_iff dest: set_takeWhileD)
  moreover have "list_all isWhiteSpace (rev ?t)" by (auto simp: list_all_iff dest: set_takeWhileD)
  ultimately show ?thesis by blast
qed

lemma isShortForm_not_canonical:
  assumes "isShortForm u"
  shows "\<not> startsWith u (js ''https://docs.google.com/document/d/'')" "\<not> str_includes u (js ''docs.google.com/document'')"
proof -
  from assms have tok: "\<forall>c \<in> set u. isTokenChar c" by (simp add: isShortForm_def list_all_iff)
  have nd: "\<not> isTokenChar (of_char CHR ''.'')" by (simp add: isTokenChar_def)
  show "\<not> startsWith u (js ''https://docs.google.com/document/d/'')"
  proof
    assume "startsWith u (js ''https://docs.google.com/document/d/'')"
    then have "set (js ''https://docs.google.com/document/d/'') \<subseteq> set u" by (auto simp: startsWith_def dest: set_mono_prefix)
    moreover have "of_char CHR ''.'' \<in> set (js ''https://docs.google.com/document/d/'')" by (simp add: js_def)
    ultimately show False using tok nd by blast
  qed
  show "\<not> str_includes u (js ''docs.google.com/document'')"
  proof
    assume "str_includes u (js ''docs.google.com/document'')"
    then have "set (js ''docs.google.com/document'') \<subseteq> set u"
      unfolding str_includes_def by (rule set_mono_sublist)
    moreover have "of_char CHR ''.'' \<in> set (js ''docs.google.com/document'')" by (simp add: js_def)
    ultimately show False using tok nd by blast
  qed
qed

lemma expanded_canonical:
  "startsWith ((js ''https://docs.google.com/document/d/'') @ u @ js ''/edit'') (js ''https://docs.google.com/document/d/'')"
  "trim ((js ''https://docs.google.com/document/d/'') @ u @ js ''/edit'') = (js ''https://docs.google.com/document/d/'') @ u @ js ''/edit''"
proof -
  show "startsWith ((js ''https://docs.google.com/document/d/'') @ u @ js ''/edit'') (js ''https://docs.google.com/document/d/'')" by (simp add: startsWith_def)
  show "trim ((js ''https://docs.google.com/document/d/'') @ u @ js ''/edit'') = (js ''https://docs.google.com/document/d/'') @ u @ js ''/edit''"
    by (rule trim_fixed) (simp add: js_def isWhiteSpace_def)
qed

lemma normalizeDocUrl_fixed:
  assumes "trim v = v"
    and "startsWith v (js ''https://docs.google.com/document/d/'') \<or> str_includes v (js ''docs.google.com/document'') \<or> \<not> isShortForm v"
  shows "normalizeDocUrl v = v"
  using assms by (auto simp add: normalizeDocUrl_def Let_def)

lemma trim_eval:
  "trim (js '' https://docs.google.com/document/d/abc/edit '') = js ''https://docs.google.com/document/d/abc/edit''"
  "trim (js ''  1a2B3c4D5e6F7g8H9i0J_k-L '') = js ''1a2B3c4D5e6F7g8H9i0J_k-L''"
  "trim (js '' my essay doc'') = js ''my essay doc''"
  by (simp_all add: trim_def js_def isWhiteSpace_def)

text \<open>
  Claim C9: \<open>normalizeDocUrl\<close> trims its input; a trimmed identifier that begins with
  \<open>https://docs.google.com/document/d/\<close> or contains \<open>docs.google.com/document\<close> is
  returned as it is; a trimmed token of at least 20 characters, all of them letters,
  digits, \<open>_\<close> or \<open>-\<close>, is expanded to \<open>https://docs.google.com/document/d/<token>/edit\<close>;
  every other trimmed input is returned as it is.
\<close>

theorem normalizeDocUrl_cases:
  "(startsWith (trim url) (js ''https://docs.google.com/document/d/'')
      \<or> str_includes (trim url) (js ''docs.google.com/document'')
      \<longrightarrow> normalizeDocUrl url = trim url)
   \<and> (20 \<le> length (trim url) \<and> (\<forall>c \<in> set (trim url). isTokenChar c)
      \<longrightarrow> normalizeDocUrl url = js ''https://docs.google.com/document/d/'' @ trim url @ js ''/edit'')
   \<and> (\<not> startsWith (trim url) (js ''https://docs.google.com/document/d/'')
      \<and> \<not> str_includes (trim url) (js ''docs.google.com/document'')
      \<and> \<not> (20 \<le> length (trim url) \<and> (\<forall>c \<in> set (trim url). isTokenChar c))
      \<longrightarrow> normalizeDocUrl url = trim url)"
proof -
  have s: "isShortForm (trim url) \<longleftrightarrow> 20 \<le> length (trim url) \<and> (\<forall>c \<in> set (trim url). isTokenChar c)"
    by (simp add: isShortForm_def list_all_iff)
  show ?thesis
    using isShortForm_not_canonical [of "trim url"] unfolding s [symmetric]
    by (auto simp add: normalizeDocUrl_def Let_def)
qed

theorem normalizeDocUrl_cases_witness:
  "normalizeDocUrl (js '' https://docs.google.com/document/d/abc/edit '')
     = js ''https://docs.google.com/document/d/abc/edit''
   \<and> normalizeDocUrl (js ''  1a2B3c4D5e6F7g8H9i0J_k-L '')
     = js ''https://docs.google.com/document/d/1a2B3c4D5e6F7g8H9i0J_k-L/edit''
   \<and> normalizeDocUrl (js '' my essay doc'') = js ''my essay doc''"
proof (intro conjI)
  show "normalizeDocUrl (js '' https://docs.google.com/document/d/abc/edit '')
     = js ''https://docs.google.com/document/d/abc/edit''"
    using normalizeDocUrl_cases [of "js '' https://docs.google.com/document/d/abc/edit ''"]
    unfolding trim_eval by (simp add: js_def startsWith_def)
  show "normalizeDocUrl (js ''  1a2B3c4D5e6F7g8H9i0J_k-L '')
     = js ''https://docs.google.com/document/d/1a2B3c4D5e6F7g8H9i0J_k-L/edit''"
    using normalizeDocUrl_cases [of "js ''  1a2B3c4D5e6F7g8H9i0J_k-L ''"]
    unfolding trim_eval by (simp add: js_def isTokenChar_def)
  show "normalizeDocUrl (js '' my essay doc'') = js ''my essay doc''"
    using normalizeDocUrl_cases [of "js '' my essay doc''"]
    unfolding trim_eval by (simp add: js_def startsWith_def str_includes_def sublist_code isTokenChar_def)
qed

text \<open>
  Claim C10: \<open>normalizeDocUrl\<close> is idempotent. The expansion of a bare token begins with
  the canonical prefix and has no white space at its ends, so a second normalization
  returns it unchanged.
\<close>

theorem normalizeDocUrl_idempotent:
  "normalizeDocUrl (normalizeDocUrl u) = normalizeDocUrl u"
proof -
  let ?t = "trim u"
  let ?e = "(js ''https://docs.google.com/document/d/'') @ ?t @ js ''/edit''"
  have t: "trim ?t = ?t" by (rule trim_idem)
  consider (canon) "startsWith ?t (js ''https://docs.google.com/document/d/'') \<or> str_includes ?t (js ''docs.google.com/document'')"
    | (short) "\<not> startsWith ?t (js ''https://docs.google.com/document/d/'')" "\<not> str_includes ?t (js ''docs.google.com/document'')"
        "isShortForm ?t"
    | (other) "\<not> startsWith ?t (js ''https://docs.google.com/document/d/'')" "\<not> str_includes ?t (js ''docs.google.com/document'')"
        "\<not> isShortForm ?t"
    by blast
  then show ?thesis
  proof cases
    case canon
    then have "normalizeDocUrl u = ?t" by (auto simp add: normalizeDocUrl_def Let_def)
    moreover from canon have "normalizeDocUrl ?t = ?t" by (intro normalizeDocUrl_fixed t) blast
    ultimately show ?thesis by simp
  next
    case short
    then have "normalizeDocUrl u = ?e" unfolding normalizeDocUrl_def Let_def by (simp only: if_False if_True)
    moreover have "normalizeDocUrl ?e = ?e"
      by (rule normalizeDocUrl_fixed) (simp_all only: expanded_canonical simp_thms)
    ultimately show ?thesis by simp
  next
    case other
    then have "normalizeDocUrl u = ?t" unfolding normalizeDocUrl_def Let_def by (simp only: if_False if_True)
    moreover from other have "normalizeDocUrl ?t = ?t" by (intro normalizeDocUrl_fixed t) blast
    ultimately show ?thesis by simp
  qed
qed

section \<open>The typing engine: traces\<close>

lemma visible_append [simp]: "visible (xs @ ys) = visible xs @ visible ys"
  by (simp add: visible_def)

lemma visible_simps [simp]:
  "visible [] = []"
  "visible (Sleep ms # tr) = visible tr"
  "visible (Click sel # tr) = visible tr"
  "visible (KeyboardType s # tr) = KeyboardType s # visible tr"
  "visible (KeyboardPress k # tr) = KeyboardPress k # visible tr"
  "visible (Progress c f # tr) = Progress c f # visible tr"
  by (simp_all add: visible_def)

lemma trace_Math_random [simp]: "trace (snd (Math_random env st)) = trace st"
  by (simp add: Math_random_def)

lemma fst_Math_random [simp]: "fst (Math_random env st) = random_at env (rnd_calls st)"
  by (simp add: Math_random_def)

lemma trace_randomDelay [simp]: "trace (snd (randomDelay env a b st)) = trace st"
  by (simp add: randomDelay_def Let_def case_prod_beta)

lemma trace_sleep [simp]: "trace (sleep ms st) = trace st @ [Sleep ms]"
  by (simp add: sleep_def)

lemma keyboard_op_Inr: "keyboard_op env ev st = Inr st' \<Longrightarrow> trace st' = trace st @ [ev]"
  by (auto simp: keyboard_op_def Let_def split: option.splits)

lemma keyboard_op_Inl: "keyboard_op env ev st = Inl (e, st') \<Longrightarrow> trace st' = trace st"
  by (auto simp: keyboard_op_def Let_def split: option.splits)

lemma typoStep_Inr:
  assumes "typoStep env opts c delay st = Inr st'"
  shows "\<exists>typo. visible (trace st') = visible (trace st)
            @ (case typo of None \<Rightarrow> [] | Some w \<Rightarrow> [KeyboardType w, KeyboardPress Backspace])
          \<and> (random_ok env \<longrightarrow> typoOK opts c typo)"
proof (cases "simulateTypos opts \<and> typoChance opts > 0")
  case False
  with assms have "st' = st" by (auto simp: typoStep_def)
  moreover from False have "typoOK opts c None" by (auto simp: typoOK_def)
  ultimately show ?thesis by (intro exI [of _ None]) simp
next
  case on: True
  let ?st1 = "snd (Math_random env st)"
  let ?roll = "random_at env (rnd_calls st)"
  show ?thesis
  proof (cases "?roll < typoChance opts \<and> perturbable c")
    case False
    with on assms have "st' = ?st1"
      by (auto simp: typoStep_def perturbable_def case_prod_beta Let_def split: option.splits if_splits)
    moreover have "random_ok env \<longrightarrow> typoOK opts c None"
      using False by (auto simp: typoOK_def random_ok_def intro: less_le_trans)
    ultimately show ?thesis by (intro exI [of _ None]) simp
  next
    case True
    then obtain neighbors where nb: "map_of KEYBOARD_NEIGHBORS (toLowerCase [c]) = Some neighbors"
      and nl: "c \<noteq> 10" by (auto simp: perturbable_def)
    let ?st2 = "snd (Math_random env ?st1)"
    let ?idx = "\<lfloor>fst (Math_random env ?st1) * real (length neighbors)\<rfloor>"
    let ?w = "if isUpperCase [c] then toUpperCase (neighbors ! nat ?idx) else neighbors ! nat ?idx"
    from assms on True nb nl have idx: "0 \<le> ?idx \<and> ?idx < int (length neighbors)"
      by (auto simp: typoStep_def case_prod_beta Let_def split: if_splits)
    with assms on True nb nl obtain st4 st6 where
      k1: "keyboard_op env (KeyboardType ?w) (sleep delay ?st2) = Inr st4"
      and k2: "keyboard_op env (KeyboardPress Backspace)
                 (sleep (fst (randomDelay env 80 200 st4)) (snd (randomDelay env 80 200 st4))) = Inr st6"
      and fin: "st' = sleep (fst (randomDelay env 50 120 st6)) (snd (randomDelay env 50 120 st6))"
      by (auto simp: typoStep_def case_prod_beta Let_def isUpperCase_def split: if_splits sum.splits)
    have "visible (trace st') = visible (trace st) @ [KeyboardType ?w, KeyboardPress Backspace]"
      using keyboard_op_Inr [OF k1] keyboard_op_Inr [OF k2] fin by simp
    moreover from idx have "nat ?idx < length neighbors" by linarith
    then have "neighbors ! nat ?idx \<in> set neighbors" by (rule nth_mem)
    then have "?w \<in> set (wrongChars c)"
      using nb by (simp add: wrongChars_def)
    ultimately show ?thesis
      using on True by (intro exI [of _ "Some ?w"]) (simp add: typoOK_def)
  qed
qed

lemma typoStep_Inl:
  assumes "typoStep env opts c delay st = Inl (e, st')"
  shows "\<exists>part. visible (trace st') = visible (trace st) @ part \<and> progressCalls part = []"
proof -
  from assms show ?thesis
    unfolding typoStep_def Let_def case_prod_beta
    by (auto simp: progressCalls_def dest!: keyboard_op_Inr keyboard_op_Inl
             split: if_splits option.splits sum.splits)
qed

lemma typeChar_Inr:
  assumes "typeChar env opts base text i st = Inr st'"
  shows "\<exists>typo. visible (trace st') = visible (trace st) @ charBlock text i typo
          \<and> (random_ok env \<longrightarrow> typoOK opts (text ! i) typo)"
proof -
  let ?st1 = "snd (Math_random env st)"
  let ?delay = "max 30 (base + (fst (Math_random env st) - 1 / 2) * 2 * wpmVariance opts * (base / 20))"
  from assms obtain st2 st3 where
    t: "typoStep env opts (text ! i) ?delay ?st1 = Inr st2"
    and k: "keyboard_op env (if text ! i = 10 then KeyboardPress Enter else KeyboardType [text ! i])
              (sleep (Math_round ?delay) st2) = Inr st3"
    unfolding typeChar_def Let_def case_prod_beta by (auto split: sum.splits)
  from typoStep_Inr [OF t] obtain typo where
    v2: "visible (trace st2) = visible (trace st)
           @ (case typo of None \<Rightarrow> [] | Some w \<Rightarrow> [KeyboardType w, KeyboardPress Backspace])"
    and ok: "random_ok env \<longrightarrow> typoOK opts (text ! i) typo" by auto
  have v3: "visible (trace st3) = visible (trace st2) @ [emission (text ! i)]"
    using keyboard_op_Inr [OF k] by (simp add: emission_def)
  have "visible (trace st') = visible (trace st3)
          @ [Progress (text ! i) (real (i + 1) / real (length text))]"
    using assms t k unfolding typeChar_def Let_def case_prod_beta by auto
  with v2 v3 have "visible (trace st') = visible (trace st) @ charBlock text i typo"
    by (simp add: charBlock_def)
  with ok show ?thesis by blast
qed

lemma typeChar_Inl:
  assumes "typeChar env opts base text i st = Inl (e, st')"
  shows "\<exists>part. visible (trace st') = visible (trace st) @ part \<and> progressCalls part = []"
proof -
  let ?st1 = "snd (Math_random env st)"
  let ?delay = "max 30 (base + (fst (Math_random env st) - 1 / 2) * 2 * wpmVariance opts * (base / 20))"
  show ?thesis
  proof (cases "typoStep env opts (text ! i) ?delay ?st1")
    case (Inl p)
    with assms have "typoStep env opts (text ! i) ?delay ?st1 = Inl (e, st')"
      unfolding typeChar_def Let_def case_prod_beta by simp
    from typoStep_Inl [OF this] show ?thesis by simp
  next
    case (Inr st2)
    with assms have k: "keyboard_op env (if text ! i = 10 then KeyboardPress Enter else KeyboardType [text ! i])
              (sleep (Math_round ?delay) st2) = Inl (e, st')"
      unfolding typeChar_def Let_def case_prod_beta by (auto split: sum.splits)
    from typoStep_Inr [OF Inr] obtain typo where
      "visible (trace st2) = visible (trace st)
           @ (case typo of None \<Rightarrow> [] | Some w \<Rightarrow> [KeyboardType w, KeyboardPress Backspace])" by auto
    moreover have "visible (trace st') = visible (trace st2)"
      using keyboard_op_Inl [OF k] by simp
    ultimately show ?thesis by (cases typo) (auto simp: progressCalls_def)
  qed
qed

lemma pauseLoop_visible:
  assumes "pauseLoop paused st = Some st'"
  shows "visible (trace st') = visible (trace st)"
proof (rule pauseLoop.raw_induct
    [where P = "\<lambda>p s y. visible (trace y) = visible (trace s)", OF _ assms])
  fix pl :: "(nat \<Rightarrow> bool) \<Rightarrow> tstate \<Rightarrow> tstate option" and p s y
  assume IH: "\<And>p s y. pl p s = Some y \<Longrightarrow> visible (trace y) = visible (trace s)"
    and step: "(let s' = s\<lparr>pause_calls := Suc (pause_calls s)\<rparr>
                in if p (pause_calls s) then pl p (sleep 200 s') else Some s') = Some y"
  show "visible (trace y) = visible (trace s)"
  proof (cases "p (pause_calls s)")
    case True
    with step have "pl p (sleep 200 (s\<lparr>pause_calls := Suc (pause_calls s)\<rparr>)) = Some y"
      by (simp add: Let_def)
    from IH [OF this] show ?thesis by simp
  next
    case False
    with step show ?thesis by (auto simp: Let_def)
  qed
qed

lemma pauseLoop_returns:
  "\<not> paused (pause_calls st + d) \<Longrightarrow> \<exists>st'. pauseLoop paused st = Some st'"
proof (induction d arbitrary: st)
  case 0
  then show ?case by (subst pauseLoop.simps) (simp add: Let_def)
next
  case (Suc d)
  let ?st = "sleep 200 (st\<lparr>pause_calls := Suc (pause_calls st)\<rparr>)"
  from Suc.prems have "\<not> paused (pause_calls ?st + d)" by (simp add: sleep_def)
  from Suc.IH [OF this] obtain st' where "pauseLoop paused ?st = Some st'" ..
  then show ?case by (subst pauseLoop.simps) (simp add: Let_def)
qed

lemma typeLoop_blocks:
  assumes "typeLoop env opts base text i st = Some (r, st')"
  shows "\<exists>typos part.
           visible (trace st') = visible (trace st) @ blocks text i typos @ part
           \<and> i + length typos \<le> max i (length text)
           \<and> (\<forall>m < length typos. \<not> shouldStop opts (i + m))
           \<and> (random_ok env \<longrightarrow> typosOK opts text i typos)
           \<and> progressCalls part = []
           \<and> (r = Inr () \<longrightarrow> part = []
                \<and> (i + length typos < length text \<longrightarrow> shouldStop opts (i + length typos)))"
  using assms
proof (induction env opts base "text" i st rule: typeLoop.induct)
  case (1 env opts baseMs tx i st)
  show ?case
  proof (cases "i < length tx \<and> \<not> shouldStop opts i")
    case False
    with "1.prems" have "r = Inr ()" "st' = st"
      by (auto simp: typeLoop.simps [of env opts baseMs tx i st] split: if_splits)
    with False show ?thesis
      by (intro exI [of _ "[]"]) (auto simp: progressCalls_def)
  next
    case True
    with "1.prems" obtain st1 where p: "pauseLoop (isPaused opts) st = Some st1"
      by (auto simp: typeLoop.simps [of env opts baseMs tx i st] split: option.splits)
    have v1: "visible (trace st1) = visible (trace st)" by (rule pauseLoop_visible [OF p])
    show ?thesis
    proof (cases "typeChar env opts baseMs tx i st1")
      case (Inl a)
      obtain e st2 where a: "a = (e, st2)" by (cases a)
      with Inl True p "1.prems" have r: "r = Inl e" and st2: "st2 = st'"
        by (auto simp: typeLoop.simps [of env opts baseMs tx i st])
      from typeChar_Inl [OF Inl [unfolded a st2]] obtain part where
        "visible (trace st') = visible (trace st1) @ part" "progressCalls part = []" by auto
      with v1 r show ?thesis
        by (intro exI [of _ "[]"] exI [of _ part]) simp
    next
      case (Inr st2)
      with True p "1.prems" have run: "typeLoop env opts baseMs tx (Suc i) st2 = Some (r, st')"
        by (simp add: typeLoop.simps [of env opts baseMs tx i st])
      from "1.IH" [OF _ _ p Inr run] True obtain typos part where
        ih: "visible (trace st') = visible (trace st2) @ blocks tx (Suc i) typos @ part"
          "Suc i + length typos \<le> max (Suc i) (length tx)"
          "\<forall>m < length typos. \<not> shouldStop opts (Suc i + m)"
          "random_ok env \<longrightarrow> typosOK opts tx (Suc i) typos"
          "progressCalls part = []"
          "r = Inr () \<longrightarrow> part = []
                \<and> (Suc i + length typos < length tx \<longrightarrow> shouldStop opts (Suc i + length typos))"
        by auto
      from typeChar_Inr [OF Inr] obtain typo where
        tc: "visible (trace st2) = visible (trace st1) @ charBlock tx i typo"
          "random_ok env \<longrightarrow> typoOK opts (tx ! i) typo" by auto
      have "visible (trace st') = visible (trace st) @ blocks tx i (typo # typos) @ part"
        using ih(1) tc(1) v1 by simp
      moreover have "i + length (typo # typos) \<le> max i (length tx)" using ih(2) True by simp
      moreover have "\<forall>m < length (typo # typos). \<not> shouldStop opts (i + m)"
        using ih(3) True by (auto simp: less_Suc_eq_0_disj)
      moreover have "random_ok env \<longrightarrow> typosOK opts tx i (typo # typos)"
        using ih(4) tc(2) by simp
      moreover have "r = Inr () \<longrightarrow> part = []
          \<and> (i + length (typo # typos) < length tx \<longrightarrow> shouldStop opts (i + length (typo # typos)))"
        using ih(6) by simp
      ultimately show ?thesis using ih(5) by blast
    qed
  qed
qed


lemma KEYBOARD_NEIGHBORS_entries:
  assumes "(k, neighbors) \<in> set KEYBOARD_NEIGHBORS"
  shows "\<exists>x. k = [x] \<and> isLowerLetter x \<and> neighbors \<noteq> []
           \<and> (\<forall>v \<in> set neighbors. \<exists>y. v = [y] \<and> isLowerLetter y \<and> y \<noteq> x)"
  using assms by (auto simp: KEYBOARD_NEIGHBORS_def js_def isLowerLetter_def)

lemma toLowerCase_unit:
  "toLowerCase [c] = [if isUpperLetter c then c + 32 else if c = 0x212A then 107 else c]"
  by (simp add: toLowerCase_def isUpperLetter_def)

lemma toUpperCase_unit:
  "toUpperCase [c] = [if isLowerLetter c then c - 32 else c]"
  by (simp add: toUpperCase_def isLowerLetter_def)

lemma isLowerLetter_unat: "isLowerLetter c \<longleftrightarrow> 97 \<le> unat c \<and> unat c \<le> 122"
  by (simp add: isLowerLetter_def word_le_nat_alt)

lemma isUpperLetter_unat: "isUpperLetter c \<longleftrightarrow> 65 \<le> unat c \<and> unat c \<le> 90"
  by (simp add: isUpperLetter_def word_le_nat_alt)

lemma lower_to_upper: "isLowerLetter c \<Longrightarrow> isUpperLetter (c - 32)"
proof -
  assume l: "isLowerLetter c"
  then have "(32 :: jschar) \<le> c" by (simp add: isLowerLetter_unat word_le_nat_alt)
  then have "unat (c - 32) = unat c - unat (32 :: jschar)" by (rule unat_sub)
  with l show ?thesis unfolding isLowerLetter_unat isUpperLetter_unat by simp linarith
qed

lemma lower_not_upper: "isLowerLetter c \<Longrightarrow> \<not> isUpperLetter c"
  by (simp add: isLowerLetter_unat isUpperLetter_unat)

lemma upper_to_lower: "isUpperLetter c \<Longrightarrow> isLowerLetter (c + 32)"
proof -
  assume u: "isUpperLetter c"
  then have "unat c + unat (32 :: jschar) < 2 ^ LENGTH(16)" by (simp add: isUpperLetter_unat)
  then have "unat (c + 32) = unat c + unat (32 :: jschar)" by (simp only: unat_add_lem)
  with u show ?thesis by (simp add: isLowerLetter_unat isUpperLetter_unat)
qed

lemma kelvin_no_letter: "\<not> isLowerLetter 0x212A" "\<not> isUpperLetter 0x212A"
  by (simp_all add: isLowerLetter_unat isUpperLetter_unat)

lemma perturbable_letter:
  assumes "perturbable c"
  shows "isLowerLetter c \<or> isUpperLetter c \<or> c = 0x212A"
proof -
  from assms obtain neighbors where "map_of KEYBOARD_NEIGHBORS (toLowerCase [c]) = Some neighbors"
    by (auto simp: perturbable_def)
  then have "(toLowerCase [c], neighbors) \<in> set KEYBOARD_NEIGHBORS" by (rule map_of_SomeD)
  from KEYBOARD_NEIGHBORS_entries [OF this] obtain x where "toLowerCase [c] = [x]" "isLowerLetter x"
    by auto
  then show ?thesis by (auto simp: toLowerCase_unit split: if_splits)
qed

lemma wrongChars_case_matched:
  assumes "w \<in> set (wrongChars c)"
  shows "\<exists>y. w = [y] \<and> y \<noteq> c \<and> (if isLowerLetter c then isLowerLetter y else isUpperLetter y)"
proof -
  from assms obtain neighbors where
    nb: "map_of KEYBOARD_NEIGHBORS (toLowerCase [c]) = Some neighbors"
    by (cases "map_of KEYBOARD_NEIGHBORS (toLowerCase [c])") (auto simp: wrongChars_def)
  with assms have "w \<in> (\<lambda>v. if isUpperCase [c] then toUpperCase v else v) ` set neighbors"
    by (simp add: wrongChars_def)
  then obtain v where v: "v \<in> set neighbors"
    and w: "w = (if isUpperCase [c] then toUpperCase v else v)"
    by (rule imageE)
  from nb have "(toLowerCase [c], neighbors) \<in> set KEYBOARD_NEIGHBORS" by (rule map_of_SomeD)
  from KEYBOARD_NEIGHBORS_entries [OF this] v obtain x y where
    x: "toLowerCase [c] = [x]" "isLowerLetter x" and y: "v = [y]" "isLowerLetter y" "y \<noteq> x"
    by blast
  have uy: "isUpperLetter (y - 32)" by (rule lower_to_upper [OF y(2)])
  consider (lower) "isLowerLetter c" | (upper) "isUpperLetter c" | (kelvin) "c = 0x212A"
    using x by (auto simp: toLowerCase_unit split: if_splits)
  then show ?thesis
  proof cases
    case lower
    then have "\<not> isUpperCase [c]" and "x = c"
      using x lower_not_upper [OF lower] kelvin_no_letter
      by (auto simp: isUpperCase_def toUpperCase_unit toLowerCase_unit)
    with w y lower show ?thesis by simp
  next
    case upper
    have nl: "\<not> isLowerLetter c" using upper lower_not_upper by blast
    with upper x have u: "isUpperCase [c]" and xc: "x = c + 32"
      by (auto simp: isUpperCase_def toUpperCase_unit toLowerCase_unit)
    have "y - 32 \<noteq> c" using y(3) xc by auto
    with u w y nl uy show ?thesis by (simp add: toUpperCase_unit)
  next
    case kelvin
    then have u: "isUpperCase [c]"
      using kelvin_no_letter by (simp add: isUpperCase_def toUpperCase_unit toLowerCase_unit)
    have "y - 32 \<noteq> c" using uy kelvin_no_letter kelvin by auto
    with u w y kelvin uy kelvin_no_letter show ?thesis by (simp add: toUpperCase_unit)
  qed
qed

lemma progressCalls_simps [simp]:
  "progressCalls [] = []"
  "progressCalls (xs @ ys) = progressCalls xs @ progressCalls ys"
  "progressCalls (Progress c f # tr) = Progress c f # progressCalls tr"
  "progressCalls (KeyboardType s # tr) = progressCalls tr"
  "progressCalls (KeyboardPress k # tr) = progressCalls tr"
  "progressCalls (Sleep ms # tr) = progressCalls tr"
  "progressCalls (Click sel # tr) = progressCalls tr"
  by (simp_all add: progressCalls_def)

lemma keyboardOps_simps [simp]:
  "keyboardOps [] = []"
  "keyboardOps (xs @ ys) = keyboardOps xs @ keyboardOps ys"
  "keyboardOps (Progress c f # tr) = keyboardOps tr"
  "keyboardOps (KeyboardType s # tr) = KeyboardType s # keyboardOps tr"
  "keyboardOps (KeyboardPress k # tr) = KeyboardPress k # keyboardOps tr"
  "keyboardOps (Sleep ms # tr) = keyboardOps tr"
  "keyboardOps (Click sel # tr) = keyboardOps tr"
  by (simp_all add: keyboardOps_def)

lemma progressCalls_visible [simp]: "progressCalls (visible tr) = progressCalls tr"
  by (induction tr) (auto simp: visible_def progressCalls_def elim: isProgress.elims)

lemma keyboardOps_visible [simp]: "keyboardOps (visible tr) = keyboardOps tr"
  by (induction tr) (auto simp: visible_def keyboardOps_def elim: isKeyboard.elims)

lemma committed_visible: "foldl applyKey doc (visible tr) = foldl applyKey doc tr"
proof (induction tr arbitrary: doc)
  case Nil
  show ?case by simp
next
  case (Cons e tr)
  then show ?case by (cases e) simp_all
qed

lemma progressCalls_blocks:
  "progressCalls (blocks tx i typos)
     = map (\<lambda>m. Progress (tx ! m) (real (m + 1) / real (length tx))) [i ..< i + length typos]"
proof (induction typos arbitrary: i)
  case Nil
  show ?case by simp
next
  case (Cons typo typos)
  have "[i ..< i + length (typo # typos)] = i # [Suc i ..< Suc i + length typos]"
    by (subst upt_rec) simp
  moreover have "progressCalls (charBlock tx i typo)
      = [Progress (tx ! i) (real (i + 1) / real (length tx))]"
    by (cases typo) (simp_all add: charBlock_def emission_def)
  ultimately show ?case using Cons.IH [of "Suc i"] by simp
qed

lemma typosOK_nth:
  "typosOK opts tx i typos \<Longrightarrow> m < length typos \<Longrightarrow> typoOK opts (tx ! (i + m)) (typos ! m)"
proof (induction typos arbitrary: i m)
  case Nil
  then show ?case by simp
next
  case (Cons typo typos)
  show ?case
  proof (cases m)
    case 0
    with Cons.prems show ?thesis by simp
  next
    case (Suc k)
    with Cons.prems have "typosOK opts tx (Suc i) typos" "k < length typos" by simp_all
    from Cons.IH [OF this] Suc show ?thesis by simp
  qed
qed

lemma committed_blocks:
  assumes "typosOK opts tx i typos" and "i + length typos \<le> length tx"
  shows "foldl applyKey doc (blocks tx i typos) = doc @ take (length typos) (drop i tx)"
  using assms
proof (induction typos arbitrary: i doc)
  case Nil
  show ?case by simp
next
  case (Cons typo typos)
  from Cons.prems have i: "i < length tx" and ok: "typoOK opts (tx ! i) typo"
    and rest: "typosOK opts tx (Suc i) typos" "Suc i + length typos \<le> length tx" by simp_all
  have one: "foldl applyKey doc (charBlock tx i typo) = doc @ [tx ! i]"
  proof (cases typo)
    case None
    then show ?thesis by (simp add: charBlock_def emission_def)
  next
    case (Some w)
    with ok have "w \<in> set (wrongChars (tx ! i))" by (simp add: typoOK_def)
    from wrongChars_case_matched [OF this] obtain y where "w = [y]" by blast
    with Some show ?thesis by (simp add: charBlock_def emission_def)
  qed
  have "take (length (typo # typos)) (drop i tx) = tx ! i # take (length typos) (drop (Suc i) tx)"
    using i by (simp add: Cons_nth_drop_Suc [symmetric])
  with one Cons.IH [OF rest] show ?case by simp
qed

lemma keyboardOps_blocks_plain:
  assumes "\<forall>typo \<in> set typos. typo = None" and "i + length typos \<le> length tx"
  shows "keyboardOps (blocks tx i typos) = map emission (take (length typos) (drop i tx))"
  using assms
proof (induction typos arbitrary: i)
  case Nil
  show ?case by simp
next
  case (Cons typo typos)
  from Cons.prems have i: "i < length tx" and n: "typo = None" by simp_all
  have "take (length (typo # typos)) (drop i tx) = tx ! i # take (length typos) (drop (Suc i) tx)"
    using i by (simp add: Cons_nth_drop_Suc [symmetric])
  moreover have "keyboardOps (charBlock tx i typo) = [emission (tx ! i)]"
    using n by (simp add: charBlock_def emission_def)
  ultimately show ?case using Cons.IH [of "Suc i"] Cons.prems by simp
qed

lemma focusLoop_visible:
  "focusLoop env sels st = Inr st' \<Longrightarrow> visible (trace st') = visible (trace st)"
  "focusLoop env sels st = Inl (e, st') \<Longrightarrow> visible (trace st') = visible (trace st)"
  by (induction sels) (auto split: sum.splits option.splits if_splits)

lemma focusLoop_returns:
  "failure_free env \<Longrightarrow> \<exists>st'. focusLoop env sels st = Inr st'"
proof (induction sels)
  case Nil
  show ?case by simp
next
  case (Cons sel sels)
  from Cons.prems obtain n where "count_of env sel = Inr n" by (auto simp: failure_free_def)
  with Cons show ?case by (auto split: option.splits)
qed

lemma run_blocks:
  assumes "typeWithHumanSpeed env tx opts = Some (r, st)"
  shows "\<exists>typos part.
           visible (trace st) = blocks tx 0 typos @ part
           \<and> length typos \<le> length tx
           \<and> (\<forall>m < length typos. \<not> shouldStop opts m)
           \<and> (random_ok env \<longrightarrow> typosOK opts tx 0 typos)
           \<and> progressCalls part = []
           \<and> (r = Inr () \<longrightarrow> part = []
                \<and> (length typos < length tx \<longrightarrow> shouldStop opts (length typos)))"
proof (cases "focusLoop env focusSelectors initial")
  case (Inl a)
  obtain e st0 where a: "a = (e, st0)" by (cases a)
  with Inl assms have "r = Inl e" "st = st0" by (auto simp: typeWithHumanSpeed_def)
  with focusLoop_visible(2) [OF Inl [unfolded a]] have "visible (trace st) = []" "r \<noteq> Inr ()"
    by (simp_all add: initial_def)
  then show ?thesis by (intro exI [of _ "[]"]) simp
next
  case (Inr st0)
  with assms have "typeLoop env opts (wpmToMsPerChar (wpm opts)) tx 0 st0 = Some (r, st)"
    by (simp add: typeWithHumanSpeed_def)
  from typeLoop_blocks [OF this] focusLoop_visible(1) [OF Inr] show ?thesis
    by (simp add: initial_def)
qed

lemma keyboard_op_returns:
  "failure_free env \<Longrightarrow> keyboard_op env ev st
      = Inr (st\<lparr>kb_calls := Suc (kb_calls st), trace := trace st @ [ev]\<rparr>)"
  by (simp add: keyboard_op_def failure_free_def Let_def)

lemma floor_index:
  fixes r :: real
  assumes "0 \<le> r" "r < 1" "0 < n"
  shows "0 \<le> \<lfloor>r * real n\<rfloor> \<and> \<lfloor>r * real n\<rfloor> < int n"
proof -
  from assms have "0 \<le> r * real n" by simp
  moreover from assms have "r * real n < 1 * real n" by (intro mult_strict_right_mono) simp_all
  then have "\<lfloor>r * real n\<rfloor> < int n" by (simp add: floor_less_iff)
  ultimately show ?thesis by simp
qed

lemma typoStep_returns:
  assumes "failure_free env" and "random_ok env"
  shows "\<exists>st'. typoStep env opts c delay st = Inr st'"
proof (cases "map_of KEYBOARD_NEIGHBORS (toLowerCase [c])")
  case None
  then show ?thesis by (simp add: typoStep_def Let_def case_prod_beta)
next
  case (Some neighbors)
  then have "(toLowerCase [c], neighbors) \<in> set KEYBOARD_NEIGHBORS" by (rule map_of_SomeD)
  from KEYBOARD_NEIGHBORS_entries [OF this] have "0 < length neighbors" by auto
  with assms(2) have "0 \<le> \<lfloor>random_at env k * real (length neighbors)\<rfloor>
      \<and> \<lfloor>random_at env k * real (length neighbors)\<rfloor> < int (length neighbors)" for k
    by (intro floor_index) (simp_all add: random_ok_def)
  with Some show ?thesis
    by (simp add: typoStep_def Let_def case_prod_beta keyboard_op_returns [OF assms(1)])
qed

lemma typeChar_returns:
  assumes "failure_free env" and "random_ok env"
  shows "\<exists>st'. typeChar env opts baseMs tx i st = Inr st'"
proof -
  let ?st1 = "snd (Math_random env st)"
  let ?delay = "max 30 (baseMs + (fst (Math_random env st) - 1 / 2) * 2 * wpmVariance opts * (baseMs / 20))"
  from typoStep_returns [OF assms] obtain st2 where
    "typoStep env opts (tx ! i) ?delay ?st1 = Inr st2" by blast
  then show ?thesis
    by (simp add: typeChar_def Let_def case_prod_beta keyboard_op_returns [OF assms(1)])
qed

lemma typeLoop_returns:
  assumes "failure_free env" and "random_ok env" and "pauses_end opts"
  shows "\<exists>st'. typeLoop env opts baseMs tx i st = Some (Inr (), st')"
  using assms
proof (induction env opts baseMs tx i st rule: typeLoop.induct)
  case (1 env opts baseMs tx i st)
  show ?case
  proof (cases "i < length tx \<and> \<not> shouldStop opts i")
    case False
    then show ?thesis by (auto simp: typeLoop.simps [of env opts baseMs tx i st])
  next
    case True
    from "1.prems"(3) obtain d where "\<not> isPaused opts (pause_calls st + d)"
      by (auto simp: pauses_end_def)
    from pauseLoop_returns [of "isPaused opts" st d, OF this] obtain st1 where p: "pauseLoop (isPaused opts) st = Some st1" ..
    from typeChar_returns [OF "1.prems"(1,2)] obtain st2 where
      c: "typeChar env opts baseMs tx i st1 = Inr st2" by blast
    from "1.IH" [OF _ _ p c "1.prems"] True obtain st' where
      "typeLoop env opts baseMs tx (Suc i) st2 = Some (Inr (), st')" by auto
    with True p c show ?thesis by (simp add: typeLoop.simps [of env opts baseMs tx i st])
  qed
qed

lemma run_returns:
  assumes "failure_free env" and "random_ok env" and "pauses_end opts"
  shows "\<exists>st. typeWithHumanSpeed env tx opts = Some (Inr (), st)"
proof -
  from focusLoop_returns [OF assms(1)] obtain st0 where
    "focusLoop env focusSelectors initial = Inr st0" by blast
  with typeLoop_returns [OF assms] show ?thesis by (simp add: typeWithHumanSpeed_def)
qed

section \<open>The typing engine: a run evaluated\<close>

text \<open>
  The content \<open>Hi.\<close> at 60 words per minute, with punctuation pauses and without typos,
  every random number being 3/4: the focus click, then for each character the delay, the
  emission and the progress callback, with the extra pause after the full stop.
\<close>

lemma run_Hi:
  "map_option (\<lambda>(r, st). (r, trace st))
     (typeWithHumanSpeed quietEnv (js ''Hi.'') (defaultOptions\<lparr>wpm := 60\<rparr>))
   = Some (Inr (),
       [Click ''.kix-appview-editor'', Sleep 400,
        Sleep 208, KeyboardType (js ''H''), Progress (of_char CHR ''H'') (1 / 3), Sleep 19,
        Sleep 208, KeyboardType (js ''i''), Progress (of_char CHR ''i'') (2 / 3), Sleep 19,
        Sleep 208, KeyboardType (js ''.''), Progress (of_char CHR ''.'') 1, Sleep 550, Sleep 19])"
  by (simp add: typeWithHumanSpeed_def quietEnv_def defaultOptions_def focusSelectors_def initial_def
      sleep_def js_def pauseLoop.simps typeLoop.simps typeChar_def typoStep_def Math_random_def
      randomDelay_def keyboard_op_def Let_def wpmToMsPerChar_def punctuationDelay_def pauses_def
      Math_round_def)

section \<open>The typing engine: claims\<close>

lemma quietEnv_ok: "failure_free quietEnv" "random_ok quietEnv"
  by (simp_all add: failure_free_def random_ok_def quietEnv_def)

lemma defaultOptions_pauses_end:
  "pauses_end (defaultOptions\<lparr>simulateTypos := a, typoChance := b, shouldStop := c\<rparr>)"
  by (simp add: pauses_end_def defaultOptions_def)

lemma perturbable_T1:
  "perturbable (js ''T1'' ! 0)" "\<not> perturbable (js ''T1'' ! 1)"
  by (simp_all add: js_def perturbable_def toLowerCase_def KEYBOARD_NEIGHBORS_def)

text \<open>
  Claim C3. For a run that returns normally without an early stop, the visible events
  are one block per character of the content. A block has a typo prefix (one wrong
  string, then one \<open>Backspace\<close>, before the emission of the character itself) only when
  typos are simulated with a positive chance and the character is perturbable (its lower
  case has an entry in \<open>KEYBOARD_NEIGHBORS\<close> and it is not the line break); the wrong string
  is then a single letter other than the character, of the case of the character. With a
  typo chance of 1 every perturbable character has the prefix. A character that is not
  perturbable never has it, and only letters (and U+212A) are perturbable. With a typo
  chance of 0 the keyboard operations are exactly the emissions of the characters, so
  \<open>cat\<close> gives three emissions and no deletion. In an environment without failures, with
  pauses that end, the run does return normally.
\<close>

theorem typo_simulation:
  assumes nostop: "\<forall>i < length tx. \<not> shouldStop opts i"
    and rnd: "random_ok env"
  shows "(failure_free env \<and> pauses_end opts
            \<longrightarrow> (\<exists>st. typeWithHumanSpeed env tx opts = Some (Inr (), st)))
       \<and> (\<forall>st. typeWithHumanSpeed env tx opts = Some (Inr (), st) \<longrightarrow>
            (\<exists>typos. length typos = length tx \<and> visible (trace st) = blocks tx 0 typos
               \<and> (\<forall>i < length tx.
                    (\<forall>w. typos ! i = Some w \<longrightarrow>
                        simulateTypos opts \<and> 0 < typoChance opts \<and> perturbable (tx ! i)
                        \<and> (\<exists>y. w = [y] \<and> y \<noteq> tx ! i
                              \<and> (if isLowerLetter (tx ! i) then isLowerLetter y else isUpperLetter y)))
                  \<and> (simulateTypos opts \<and> 1 \<le> typoChance opts \<and> perturbable (tx ! i)
                        \<longrightarrow> typos ! i \<noteq> None)
                  \<and> (\<not> perturbable (tx ! i) \<or> typoChance opts = 0 \<longrightarrow> typos ! i = None)))
            \<and> (typoChance opts = 0 \<longrightarrow> keyboardOps (trace st) = map emission tx))
       \<and> (\<forall>c. perturbable c \<longrightarrow> isLowerLetter c \<or> isUpperLetter c \<or> c = 0x212A)"
proof (intro conjI allI impI)
  show "\<exists>st. typeWithHumanSpeed env tx opts = Some (Inr (), st)"
    if "failure_free env \<and> pauses_end opts"
    using that rnd by (intro run_returns) simp_all
next
  fix c assume "perturbable c"
  then show "isLowerLetter c \<or> isUpperLetter c \<or> c = 0x212A" by (rule perturbable_letter)
next
  fix st assume run: "typeWithHumanSpeed env tx opts = Some (Inr (), st)"
  from run_blocks [OF run] rnd obtain typos where
    v: "visible (trace st) = blocks tx 0 typos"
    and le: "length typos \<le> length tx"
    and ok: "typosOK opts tx 0 typos"
    and stop: "length typos < length tx \<longrightarrow> shouldStop opts (length typos)"
    by auto
  from le stop nostop have len: "length typos = length tx" by (cases "length typos < length tx") auto
  have each: "typoOK opts (tx ! i) (typos ! i)" if "i < length tx" for i
    using typosOK_nth [OF ok, of i] that len by simp
  have shape: "\<forall>i < length tx.
      (\<forall>w. typos ! i = Some w \<longrightarrow>
          simulateTypos opts \<and> 0 < typoChance opts \<and> perturbable (tx ! i)
          \<and> (\<exists>y. w = [y] \<and> y \<noteq> tx ! i
                \<and> (if isLowerLetter (tx ! i) then isLowerLetter y else isUpperLetter y)))
      \<and> (simulateTypos opts \<and> 1 \<le> typoChance opts \<and> perturbable (tx ! i) \<longrightarrow> typos ! i \<noteq> None)
      \<and> (\<not> perturbable (tx ! i) \<or> typoChance opts = 0 \<longrightarrow> typos ! i = None)"
  proof (intro allI impI)
    fix i assume i: "i < length tx"
    show "(\<forall>w. typos ! i = Some w \<longrightarrow>
          simulateTypos opts \<and> 0 < typoChance opts \<and> perturbable (tx ! i)
          \<and> (\<exists>y. w = [y] \<and> y \<noteq> tx ! i
                \<and> (if isLowerLetter (tx ! i) then isLowerLetter y else isUpperLetter y)))
      \<and> (simulateTypos opts \<and> 1 \<le> typoChance opts \<and> perturbable (tx ! i) \<longrightarrow> typos ! i \<noteq> None)
      \<and> (\<not> perturbable (tx ! i) \<or> typoChance opts = 0 \<longrightarrow> typos ! i = None)"
    proof (cases "typos ! i")
      case None
      with each [OF i] show ?thesis by (simp add: typoOK_def)
    next
      case (Some w)
      with each [OF i] have a: "simulateTypos opts" "0 < typoChance opts" "perturbable (tx ! i)"
        and w: "w \<in> set (wrongChars (tx ! i))" by (simp_all add: typoOK_def)
      from wrongChars_case_matched [OF w] a Some show ?thesis by auto
    qed
  qed
  from len v shape
  show "\<exists>typos. length typos = length tx \<and> visible (trace st) = blocks tx 0 typos
               \<and> (\<forall>i < length tx.
                    (\<forall>w. typos ! i = Some w \<longrightarrow>
                        simulateTypos opts \<and> 0 < typoChance opts \<and> perturbable (tx ! i)
                        \<and> (\<exists>y. w = [y] \<and> y \<noteq> tx ! i
                              \<and> (if isLowerLetter (tx ! i) then isLowerLetter y else isUpperLetter y)))
                  \<and> (simulateTypos opts \<and> 1 \<le> typoChance opts \<and> perturbable (tx ! i)
                        \<longrightarrow> typos ! i \<noteq> None)
                  \<and> (\<not> perturbable (tx ! i) \<or> typoChance opts = 0 \<longrightarrow> typos ! i = None))"
    by blast
  show "keyboardOps (trace st) = map emission tx" if z: "typoChance opts = 0"
  proof -
    have "\<forall>typo \<in> set typos. typo = None"
    proof
      fix typo assume "typo \<in> set typos"
      then obtain i where "i < length typos" "typos ! i = typo" by (auto simp: in_set_conv_nth)
      with shape len z show "typo = None" by auto
    qed
    from keyboardOps_blocks_plain [OF this, of 0 tx] len
    have "keyboardOps (blocks tx 0 typos) = map emission tx" by simp
    with v show ?thesis by (metis keyboardOps_visible)
  qed
qed

theorem typo_simulation_witness:
  "(\<exists>st. typeWithHumanSpeed quietEnv (js ''cat'')
            (defaultOptions\<lparr>simulateTypos := True, typoChance := 0, shouldStop := (\<lambda>i. False)\<rparr>)
          = Some (Inr (), st)
        \<and> keyboardOps (trace st)
          = [KeyboardType (js ''c''), KeyboardType (js ''a''), KeyboardType (js ''t'')])
   \<and> (\<exists>st a. typeWithHumanSpeed quietEnv (js ''T1'')
            (defaultOptions\<lparr>simulateTypos := True, typoChance := 1, shouldStop := (\<lambda>i. False)\<rparr>)
          = Some (Inr (), st)
        \<and> isUpperLetter a \<and> a \<noteq> of_char CHR ''T''
        \<and> keyboardOps (trace st)
          = [KeyboardType [a], KeyboardPress Backspace, KeyboardType (js ''T''), KeyboardType (js ''1'')])"
proof
  let ?o = "defaultOptions\<lparr>simulateTypos := True, typoChance := 0, shouldStop := (\<lambda>i. False)\<rparr>"
  have ns: "\<forall>i < length (js ''cat''). \<not> shouldStop ?o i" by simp
  note t = typo_simulation [OF ns quietEnv_ok(2)]
  from t [THEN conjunct1] quietEnv_ok(1) defaultOptions_pauses_end obtain st where
    run: "typeWithHumanSpeed quietEnv (js ''cat'') ?o = Some (Inr (), st)" by blast
  have z: "typoChance ?o = 0" by simp
  from t [THEN conjunct2, THEN conjunct1, rule_format, OF run, THEN conjunct2, rule_format, OF z]
  have "keyboardOps (trace st) = map emission (js ''cat'')" .
  then have "keyboardOps (trace st)
      = [KeyboardType (js ''c''), KeyboardType (js ''a''), KeyboardType (js ''t'')]"
    by (simp add: js_def emission_def)
  with run show "\<exists>st. typeWithHumanSpeed quietEnv (js ''cat'') ?o = Some (Inr (), st)
        \<and> keyboardOps (trace st)
          = [KeyboardType (js ''c''), KeyboardType (js ''a''), KeyboardType (js ''t'')]"
    by blast
next
  let ?o = "defaultOptions\<lparr>simulateTypos := True, typoChance := 1, shouldStop := (\<lambda>i. False)\<rparr>"
  let ?tx = "js ''T1''"
  have ns: "\<forall>i < length ?tx. \<not> shouldStop ?o i" by simp
  note t = typo_simulation [OF ns quietEnv_ok(2)]
  from t [THEN conjunct1] quietEnv_ok(1) defaultOptions_pauses_end obtain st where
    run: "typeWithHumanSpeed quietEnv ?tx ?o = Some (Inr (), st)" by blast
  have l0: "\<not> isLowerLetter (?tx ! 0)" by (simp add: js_def isLowerLetter_def)
  have on: "simulateTypos ?o \<and> 1 \<le> typoChance ?o \<and> perturbable (?tx ! 0)"
    using perturbable_T1(1) by simp
  from t [THEN conjunct2, THEN conjunct1, rule_format, OF run, THEN conjunct1]
  obtain typos where all: "length typos = length ?tx \<and> visible (trace st) = blocks ?tx 0 typos
               \<and> (\<forall>i < length ?tx.
                    (\<forall>w. typos ! i = Some w \<longrightarrow>
                        simulateTypos ?o \<and> 0 < typoChance ?o \<and> perturbable (?tx ! i)
                        \<and> (\<exists>y. w = [y] \<and> y \<noteq> ?tx ! i
                              \<and> (if isLowerLetter (?tx ! i) then isLowerLetter y else isUpperLetter y)))
                  \<and> (simulateTypos ?o \<and> 1 \<le> typoChance ?o \<and> perturbable (?tx ! i)
                        \<longrightarrow> typos ! i \<noteq> None)
                  \<and> (\<not> perturbable (?tx ! i) \<or> typoChance ?o = 0 \<longrightarrow> typos ! i = None))" ..
  note len = all [THEN conjunct1]
  note v = all [THEN conjunct2, THEN conjunct1]
  note sh = all [THEN conjunct2, THEN conjunct2, rule_format]
  have i0: "0 < length ?tx" and i1: "1 < length ?tx" by (simp_all add: js_def)
  from sh [OF i0, THEN conjunct2, THEN conjunct1, rule_format, OF on]
  obtain w where w: "typos ! 0 = Some w" by blast
  from sh [OF i0, THEN conjunct1, rule_format, OF w] l0
  obtain a where a: "w = [a]" "a \<noteq> ?tx ! 0" "isUpperLetter a" by auto
  from sh [OF i1, THEN conjunct2, THEN conjunct2] perturbable_T1(2) have n: "typos ! 1 = None" by blast
  from len have "length typos = 2" by (simp add: js_def)
  then obtain t0 t1 where "typos = [t0, t1]"
    by (cases typos; cases "tl typos") auto
  with w a(1) n have "typos = [Some [a], None]" by simp
  with v have "visible (trace st) = blocks ?tx 0 [Some [a], None]" by (simp only:)
  then have "keyboardOps (visible (trace st))
      = keyboardOps (blocks ?tx 0 [Some [a], None])" by (rule arg_cong)
  then have "keyboardOps (trace st)
      = [KeyboardType [a], KeyboardPress Backspace, KeyboardType (js ''T''), KeyboardType (js ''1'')]"
    by (simp add: charBlock_def emission_def js_def)
  moreover from a(2) have "a \<noteq> of_char CHR ''T''" by (simp add: js_def)
  ultimately show "\<exists>st a. typeWithHumanSpeed quietEnv ?tx ?o = Some (Inr (), st)
        \<and> isUpperLetter a \<and> a \<noteq> of_char CHR ''T''
        \<and> keyboardOps (trace st)
          = [KeyboardType [a], KeyboardPress Backspace, KeyboardType (js ''T''), KeyboardType (js ''1'')]"
    using run a(3) by blast
qed

text \<open>
  Claim C4. For a run that returns normally without an early stop, whatever the random
  numbers were, the content committed by its keyboard operations is the input text: every
  wrong character is removed by the \<open>Backspace\<close> that follows it.
\<close>

theorem typos_cancel:
  assumes nostop: "\<forall>i < length tx. \<not> shouldStop opts i"
    and rnd: "random_ok env"
  shows "(failure_free env \<and> pauses_end opts
            \<longrightarrow> (\<exists>st. typeWithHumanSpeed env tx opts = Some (Inr (), st)))
       \<and> (\<forall>st. typeWithHumanSpeed env tx opts = Some (Inr (), st) \<longrightarrow> committed (trace st) = tx)"
proof (intro conjI allI impI)
  show "\<exists>st. typeWithHumanSpeed env tx opts = Some (Inr (), st)"
    if "failure_free env \<and> pauses_end opts"
    using that rnd by (intro run_returns) simp_all
next
  fix st assume run: "typeWithHumanSpeed env tx opts = Some (Inr (), st)"
  from run_blocks [OF run] rnd obtain typos where
    v: "visible (trace st) = blocks tx 0 typos"
    and le: "length typos \<le> length tx"
    and ok: "typosOK opts tx 0 typos"
    and stop: "length typos < length tx \<longrightarrow> shouldStop opts (length typos)"
    by auto
  from le stop nostop have len: "length typos = length tx" by (cases "length typos < length tx") auto
  have "committed (trace st) = foldl applyKey [] (visible (trace st))"
    by (simp add: committed_def committed_visible)
  also have "\<dots> = [] @ take (length typos) (drop 0 tx)"
    unfolding v using ok len by (intro committed_blocks) simp_all
  finally show "committed (trace st) = tx" using len by simp
qed

theorem typos_cancel_witness:
  "\<exists>st. typeWithHumanSpeed quietEnv (js ''Hi.'')
            (defaultOptions\<lparr>simulateTypos := True, typoChance := 1, shouldStop := (\<lambda>i. False)\<rparr>)
          = Some (Inr (), st)
        \<and> committed (trace st) = js ''Hi.''"
proof -
  let ?o = "defaultOptions\<lparr>simulateTypos := True, typoChance := 1, shouldStop := (\<lambda>i. False)\<rparr>"
  have ns: "\<forall>i < length (js ''Hi.''). \<not> shouldStop ?o i" by simp
  note t = typos_cancel [OF ns quietEnv_ok(2)]
  from t [THEN conjunct1] quietEnv_ok(1) defaultOptions_pauses_end obtain st where
    run: "typeWithHumanSpeed quietEnv (js ''Hi.'') ?o = Some (Inr (), st)" by blast
  from t [THEN conjunct2, rule_format, OF run] run show ?thesis by blast
qed

lemma length_progressCalls_blocks: "length (progressCalls (blocks tx i typos)) = length typos"
  by (simp add: progressCalls_blocks)

text \<open>
  Claim C7. The stop predicate is asked before each character. If its first true answer
  is at index \<open>k\<close>, the loop reached at index \<open>k\<close> returns normally at once and leaves the
  state as it is; a run has at most \<open>k\<close> progress callbacks; a run that returns normally
  has exactly the blocks of the first \<open>k\<close> characters as its visible events, and has
  committed exactly these characters; and in an environment without failures, with
  pauses that end, the run does return normally.
\<close>

theorem stop_is_clean:
  assumes stop: "shouldStop opts k" and k: "k < length tx"
    and first: "\<forall>i < k. \<not> shouldStop opts i"
  shows "typeLoop env opts baseMs tx k st0 = Some (Inr (), st0)
       \<and> (failure_free env \<and> random_ok env \<and> pauses_end opts
            \<longrightarrow> (\<exists>st. typeWithHumanSpeed env tx opts = Some (Inr (), st)))
       \<and> (\<forall>r st. typeWithHumanSpeed env tx opts = Some (r, st) \<longrightarrow>
            length (progressCalls (trace st)) \<le> k
            \<and> (r = Inr () \<longrightarrow>
                 (\<exists>typos. length typos = k \<and> visible (trace st) = blocks tx 0 typos)
                 \<and> progressCalls (trace st)
                     = map (\<lambda>i. Progress (tx ! i) (real (i + 1) / real (length tx))) [0 ..< k]
                 \<and> (random_ok env \<longrightarrow> committed (trace st) = take k tx)))"
proof (intro conjI allI impI)
  show "typeLoop env opts baseMs tx k st0 = Some (Inr (), st0)"
    using stop k by (simp add: typeLoop.simps [of env opts baseMs tx k st0])
next
  show "\<exists>st. typeWithHumanSpeed env tx opts = Some (Inr (), st)"
    if "failure_free env \<and> random_ok env \<and> pauses_end opts"
    using that by (intro run_returns) simp_all
next
  fix r st assume run: "typeWithHumanSpeed env tx opts = Some (r, st)"
  from run_blocks [OF run] obtain typos part where
    v: "visible (trace st) = blocks tx 0 typos @ part"
    and le: "length typos \<le> length tx"
    and ns: "\<forall>m < length typos. \<not> shouldStop opts m"
    and ok: "random_ok env \<longrightarrow> typosOK opts tx 0 typos"
    and np: "progressCalls part = []"
    and fin: "r = Inr () \<longrightarrow> part = [] \<and> (length typos < length tx \<longrightarrow> shouldStop opts (length typos))"
    by blast
  from ns stop have lk: "length typos \<le> k" by (meson not_le)
  have pc: "progressCalls (trace st) = progressCalls (blocks tx 0 typos)"
    using v np by (metis progressCalls_visible progressCalls_simps(2) append_Nil2)
  then show "length (progressCalls (trace st)) \<le> k"
    using lk by (simp add: length_progressCalls_blocks)
  {
    assume r: "r = Inr ()"
    with fin have part: "part = []" and s: "length typos < length tx \<longrightarrow> shouldStop opts (length typos)"
      by simp_all
    have len: "length typos = k"
    proof (rule ccontr)
      assume "length typos \<noteq> k"
      with lk have lt: "length typos < k" by simp
      with k s have "shouldStop opts (length typos)" by simp
      with first lt show False by blast
    qed
    from len v part show "\<exists>typos. length typos = k \<and> visible (trace st) = blocks tx 0 typos"
      by auto
    from pc len show "progressCalls (trace st)
        = map (\<lambda>i. Progress (tx ! i) (real (i + 1) / real (length tx))) [0 ..< k]"
      by (simp add: progressCalls_blocks)
    {
      assume "random_ok env"
      with ok have ok': "typosOK opts tx 0 typos" by simp
      have "committed (trace st) = foldl applyKey [] (visible (trace st))"
        by (simp add: committed_def committed_visible)
      also have "\<dots> = [] @ take (length typos) (drop 0 tx)"
        unfolding v part using ok' le by (simp add: committed_blocks)
      finally show "committed (trace st) = take k tx" using len by simp
    }
  }
qed

theorem stop_is_clean_witness:
  "typeLoop quietEnv
      (defaultOptions\<lparr>simulateTypos := True, typoChance := 1, shouldStop := (\<lambda>i. i = 2)\<rparr>)
      (wpmToMsPerChar 45) (js ''Hi.'') 2 initial = Some (Inr (), initial)
   \<and> (\<exists>st. typeWithHumanSpeed quietEnv (js ''Hi.'')
            (defaultOptions\<lparr>simulateTypos := True, typoChance := 1, shouldStop := (\<lambda>i. i = 2)\<rparr>)
          = Some (Inr (), st)
        \<and> progressCalls (trace st)
            = [Progress (of_char CHR ''H'') (1 / 3), Progress (of_char CHR ''i'') (2 / 3)]
        \<and> committed (trace st) = js ''Hi'')"
proof -
  let ?o = "defaultOptions\<lparr>simulateTypos := True, typoChance := 1, shouldStop := (\<lambda>i. i = 2)\<rparr>"
  let ?tx = "js ''Hi.''"
  have s: "shouldStop ?o 2" by simp
  have k: "2 < length ?tx" by (simp add: js_def)
  have f: "\<forall>i < 2. \<not> shouldStop ?o i" by simp
  note t = stop_is_clean [OF s k f]
  have ok: "failure_free quietEnv \<and> random_ok quietEnv \<and> pauses_end ?o"
    using quietEnv_ok defaultOptions_pauses_end by blast
  from t [THEN conjunct2, THEN conjunct1, rule_format, OF ok] obtain st where
    run: "typeWithHumanSpeed quietEnv ?tx ?o = Some (Inr (), st)" ..
  note u = t [THEN conjunct2, THEN conjunct2, rule_format, OF run, THEN conjunct2, rule_format, OF refl]
  from u [THEN conjunct2, THEN conjunct1]
  have p: "progressCalls (trace st)
      = [Progress (of_char CHR ''H'') (1 / 3), Progress (of_char CHR ''i'') (2 / 3)]"
    by (simp add: js_def upt_rec [of 0] upt_rec [of 1] numeral_2_eq_2)
  from u [THEN conjunct2, THEN conjunct2, rule_format, OF quietEnv_ok(2)]
  have c: "committed (trace st) = js ''Hi''" by (simp add: js_def numeral_2_eq_2)
  from t [THEN conjunct1] run p c show ?thesis by blast
qed

text \<open>
  Claim C8. In every run that settles, the visible events are blocks of the first
  characters of the content, each ending with the emission of its character followed by
  one progress callback, and then events without a progress callback; the i-th callback
  reports \<open>(i + 1) / n\<close> for the content length \<open>n\<close>; every reported fraction lies in
  [0, 1]; and a run over a non-empty content that returns normally without an early stop
  has one callback per character, the last with fraction 1.
\<close>

theorem progress_fractions:
  "(failure_free env \<and> random_ok env \<and> pauses_end opts
      \<longrightarrow> (\<exists>st. typeWithHumanSpeed env tx opts = Some (Inr (), st)))
   \<and> (\<forall>r st. typeWithHumanSpeed env tx opts = Some (r, st) \<longrightarrow>
        (\<exists>typos part.
            visible (trace st) = blocks tx 0 typos @ part \<and> progressCalls part = []
            \<and> length typos \<le> length tx
            \<and> progressCalls (trace st)
                = map (\<lambda>i. Progress (tx ! i) (real (i + 1) / real (length tx))) [0 ..< length typos]
            \<and> (r = Inr () \<and> (\<forall>i < length tx. \<not> shouldStop opts i)
                  \<longrightarrow> part = [] \<and> length typos = length tx))
        \<and> (\<forall>c f. Progress c f \<in> set (trace st) \<longrightarrow> 0 \<le> f \<and> f \<le> 1)
        \<and> (r = Inr () \<and> (\<forall>i < length tx. \<not> shouldStop opts i) \<and> tx \<noteq> []
              \<longrightarrow> last (progressCalls (trace st)) = Progress (last tx) 1))"
proof (intro conjI allI impI)
  show "\<exists>st. typeWithHumanSpeed env tx opts = Some (Inr (), st)"
    if "failure_free env \<and> random_ok env \<and> pauses_end opts"
    using that by (intro run_returns) simp_all
next
  fix r st assume run: "typeWithHumanSpeed env tx opts = Some (r, st)"
  from run_blocks [OF run] obtain typos part where
    v: "visible (trace st) = blocks tx 0 typos @ part"
    and le: "length typos \<le> length tx"
    and np: "progressCalls part = []"
    and fin: "r = Inr () \<longrightarrow> part = [] \<and> (length typos < length tx \<longrightarrow> shouldStop opts (length typos))"
    by blast
  have pc: "progressCalls (trace st)
      = map (\<lambda>i. Progress (tx ! i) (real (i + 1) / real (length tx))) [0 ..< length typos]"
  proof -
    have "progressCalls (trace st) = progressCalls (visible (trace st))" by simp
    also have "\<dots> = progressCalls (blocks tx 0 typos)" unfolding v using np by simp
    finally show ?thesis by (simp add: progressCalls_blocks)
  qed
  have full: "part = [] \<and> length typos = length tx"
    if "r = Inr () \<and> (\<forall>i < length tx. \<not> shouldStop opts i)"
    using that fin le by (cases "length typos < length tx") auto
  from v np le pc full
  show "\<exists>typos part.
            visible (trace st) = blocks tx 0 typos @ part \<and> progressCalls part = []
            \<and> length typos \<le> length tx
            \<and> progressCalls (trace st)
                = map (\<lambda>i. Progress (tx ! i) (real (i + 1) / real (length tx))) [0 ..< length typos]
            \<and> (r = Inr () \<and> (\<forall>i < length tx. \<not> shouldStop opts i)
                  \<longrightarrow> part = [] \<and> length typos = length tx)"
    by blast
  {
    fix c f assume "Progress c f \<in> set (trace st)"
    then have "Progress c f \<in> set (progressCalls (trace st))" by (simp add: progressCalls_def)
    with pc obtain i where i: "i < length typos" and f: "f = real (i + 1) / real (length tx)"
      by auto
    from i le have "real (i + 1) \<le> real (length tx)" by simp
    with f i le show "0 \<le> f" and "f \<le> 1" by (simp_all add: divide_le_eq_1)
  }
  {
    assume a: "r = Inr () \<and> (\<forall>i < length tx. \<not> shouldStop opts i) \<and> tx \<noteq> []"
    with full have len: "length typos = length tx" by simp
    from a have n: "0 < length tx" by simp
    then have "[0 ..< length tx] = [0 ..< length tx - 1] @ [length tx - 1]"
      by (metis Suc_pred' upt_Suc_append zero_le)
    then have "last (progressCalls (trace st))
        = Progress (tx ! (length tx - 1)) (real (length tx - 1 + 1) / real (length tx))"
      unfolding pc len by (metis (no_types, lifting) last_snoc map_append list.simps(8,9))
    with n a show "last (progressCalls (trace st)) = Progress (last tx) 1"
      by (simp add: last_conv_nth)
  }
qed

theorem progress_fractions_witness:
  "\<exists>st. typeWithHumanSpeed quietEnv (js ''Hi.'')
            (defaultOptions\<lparr>simulateTypos := True, typoChance := 1, shouldStop := (\<lambda>i. False)\<rparr>)
          = Some (Inr (), st)
        \<and> progressCalls (trace st)
            = [Progress (of_char CHR ''H'') (1 / 3), Progress (of_char CHR ''i'') (2 / 3),
               Progress (of_char CHR ''.'') 1]
        \<and> last (progressCalls (trace st)) = Progress (of_char CHR ''.'') 1"
proof -
  let ?o = "defaultOptions\<lparr>simulateTypos := True, typoChance := 1, shouldStop := (\<lambda>i. False)\<rparr>"
  let ?tx = "js ''Hi.''"
  note t = progress_fractions [of quietEnv ?o ?tx]
  have ok: "failure_free quietEnv \<and> random_ok quietEnv \<and> pauses_end ?o"
    using quietEnv_ok defaultOptions_pauses_end by blast
  from t [THEN conjunct1, rule_format, OF ok] obtain st where
    run: "typeWithHumanSpeed quietEnv ?tx ?o = Some (Inr (), st)" ..
  note u = t [THEN conjunct2, rule_format, OF run]
  have full: "Inr () = (Inr () :: error + unit) \<and> (\<forall>i < length ?tx. \<not> shouldStop ?o i)" by simp
  from u [THEN conjunct1] obtain typos part where
    a: "visible (trace st) = blocks ?tx 0 typos @ part \<and> progressCalls part = []
            \<and> length typos \<le> length ?tx
            \<and> progressCalls (trace st)
                = map (\<lambda>i. Progress (?tx ! i) (real (i + 1) / real (length ?tx))) [0 ..< length typos]
            \<and> (Inr () = (Inr () :: error + unit) \<and> (\<forall>i < length ?tx. \<not> shouldStop ?o i)
                  \<longrightarrow> part = [] \<and> length typos = length ?tx)"
    by blast
  from a full have len: "length typos = 3" by (simp add: js_def)
  from a have "progressCalls (trace st)
      = map (\<lambda>i. Progress (?tx ! i) (real (i + 1) / real (length ?tx))) [0 ..< length typos]"
    by (elim conjE)
  then have p: "progressCalls (trace st)
            = [Progress (of_char CHR ''H'') (1 / 3), Progress (of_char CHR ''i'') (2 / 3),
               Progress (of_char CHR ''.'') 1]"
    unfolding len by (simp add: js_def upt_rec [of 0] upt_rec [of 1] upt_rec [of 2] numeral_3_eq_3)
  have ne: "Inr () = (Inr () :: error + unit) \<and> (\<forall>i < length ?tx. \<not> shouldStop ?o i) \<and> ?tx \<noteq> []"
    by (simp add: js_def)
  from u [THEN conjunct2, THEN conjunct2, rule_format, OF ne]
  have "last (progressCalls (trace st)) = Progress (of_char CHR ''.'') 1" by (simp add: js_def)
  with run p show ?thesis by blast
qed

section \<open>Orchestration: runs of jobs\<close>

lemma typeLoop_settles:
  assumes "pauses_end opts"
  shows "\<exists>r st'. typeLoop env opts baseMs tx i st = Some (r, st')"
  using assms
proof (induction env opts baseMs tx i st rule: typeLoop.induct)
  case (1 env opts baseMs tx i st)
  show ?case
  proof (cases "i < length tx \<and> \<not> shouldStop opts i")
    case False
    then show ?thesis by (auto simp: typeLoop.simps [of env opts baseMs tx i st])
  next
    case True
    from "1.prems" obtain d where "\<not> isPaused opts (pause_calls st + d)"
      by (auto simp: pauses_end_def)
    from pauseLoop_returns [of "isPaused opts" st d, OF this] obtain st1 where
      p: "pauseLoop (isPaused opts) st = Some st1" ..
    show ?thesis
    proof (cases "typeChar env opts baseMs tx i st1")
      case (Inl a)
      with True p show ?thesis
        by (cases a) (simp add: typeLoop.simps [of env opts baseMs tx i st])
    next
      case (Inr st2)
      from "1.IH" [OF _ _ p Inr "1.prems"] True obtain r st' where
        "typeLoop env opts baseMs tx (Suc i) st2 = Some (r, st')" by auto
      with True p Inr show ?thesis by (simp add: typeLoop.simps [of env opts baseMs tx i st])
    qed
  qed
qed

lemma typeWithHumanSpeed_settles:
  assumes "pauses_end opts"
  shows "\<exists>r st. typeWithHumanSpeed env tx opts = Some (r, st)"
proof (cases "focusLoop env focusSelectors initial")
  case (Inl a)
  then show ?thesis by (cases a) (simp add: typeWithHumanSpeed_def)
next
  case (Inr st0)
  with typeLoop_settles [OF assms] show ?thesis by (simp add: typeWithHumanSpeed_def)
qed

lemma jobOptions_pauses_end: "pauses_end (jobOptions job)"
  by (simp add: pauses_end_def jobOptions_def)

lemma completions_simps [simp]:
  "completions [] = []"
  "completions (xs @ ys) = completions xs @ completions ys"
  "completions (OnJobComplete err # evs) = OnJobComplete err # completions evs"
  "completions (OnJobStart n # evs) = completions evs"
  "completions (NewPage # evs) = completions evs"
  "completions (Goto url # evs) = completions evs"
  "completions (WaitForLoadState # evs) = completions evs"
  "completions (PageSleep ms # evs) = completions evs"
  "completions (ClosePage # evs) = completions evs"
  "completions (map Typing tr) = []"
  by (simp_all add: completions_def filter_empty_conv)

lemma runJob_cases:
  obtains (noEssay) "jobEssay rf job = []"
      "runJob rf jenv job closeTab = Some (Inl (NoEssayContent (docUrl job)), [])"
  | (noPage) err where "newPage_error jenv = Some err"
      "runJob rf jenv job closeTab = Some (Inl err, [OnJobStart (length (jobEssay rf job))])"
  | (failed) err evs where "newPage_error jenv = None"
      "runJob rf jenv job closeTab = Some (Inl err, evs)"
      "completions evs = [OnJobComplete (Some err)]" "NewPage \<in> set evs"
  | (completed) evs where "newPage_error jenv = None"
      "runJob rf jenv job closeTab = Some (Inr (), evs)"
      "completions evs = [OnJobComplete None]" "NewPage \<in> set evs"
proof -
  let ?c = "jobEssay rf job"
  from typeWithHumanSpeed_settles [OF jobOptions_pauses_end] obtain r st where
    ty: "typeWithHumanSpeed (page jenv) ?c (jobOptions job) = Some (r, st)" by blast
  show ?thesis
  proof (cases "?c = []")
    case True
    then have "runJob rf jenv job closeTab = Some (Inl (NoEssayContent (docUrl job)), [])"
      by (simp add: runJob_def Let_def)
    with True show ?thesis by (rule noEssay)
  next
    case c: False
    show ?thesis
    proof (cases "newPage_error jenv")
      case (Some err)
      with c have "runJob rf jenv job closeTab = Some (Inl err, [OnJobStart (length ?c)])"
        by (simp add: runJob_def Let_def)
      with Some show ?thesis by (rule noPage)
    next
      case np: None
      show ?thesis
      proof (cases "goto_error jenv")
        case (Some err)
        with c np have "runJob rf jenv job closeTab
            = Some (Inl err, [OnJobStart (length ?c)] @ [NewPage, OnJobComplete (Some err)]
                               @ (if closeTab then [ClosePage] else []))"
          by (simp add: runJob_def Let_def)
        with np show ?thesis by (rule failed) simp_all
      next
        case go: None
        show ?thesis
        proof (cases "loadState_error jenv")
          case (Some err)
          with c np go have "runJob rf jenv job closeTab
              = Some (Inl err, [OnJobStart (length ?c)]
                     @ [NewPage, Goto (normalizeDocUrl (docUrl job)), OnJobComplete (Some err)]
                     @ (if closeTab then [ClosePage] else []))"
            by (simp add: runJob_def Let_def)
          with np show ?thesis by (rule failed) simp_all
        next
          case ls: None
          let ?opened = "[OnJobStart (length ?c)]
              @ [NewPage, Goto (normalizeDocUrl (docUrl job)), WaitForLoadState, PageSleep 2000]"
          show ?thesis
          proof (cases r)
            case (Inl err)
            with c np go ls ty have "runJob rf jenv job closeTab
                = Some (Inl err, ?opened @ map Typing (trace st) @ [OnJobComplete (Some err)]
                       @ (if closeTab then [ClosePage] else []))"
              by (simp add: runJob_def Let_def)
            with np show ?thesis by (rule failed) simp_all
          next
            case (Inr u)
            with c np go ls ty have "runJob rf jenv job closeTab
                = Some (Inr (), ?opened @ map Typing (trace st) @ [OnJobComplete None]
                       @ (if closeTab then [ClosePage] else []))"
              by (simp add: runJob_def Let_def)
            with np show ?thesis by (rule completed) simp_all
          qed
        qed
      qed
    qed
  qed
qed

lemma runJob_settles: "\<exists>r evs. runJob rf jenv job closeTab = Some (r, evs)"
  by (rule runJob_cases [of rf job jenv closeTab]) blast+


lemma runParallel_all:
  "\<exists>rs errs. runParallel w closeTab i jobs = Some (rs, errs)
      \<and> length rs = length jobs
      \<and> (\<forall>k < length jobs. \<exists>r evs. rs ! k = (jobs ! k, r, evs)
            \<and> runJob (readFile w) (job_env_of w (i + k)) (jobs ! k) closeTab = Some (r, evs))
      \<and> (errs = [] \<longleftrightarrow> (\<forall>k < length jobs. fst (snd (rs ! k)) = Inr ()))"
proof (induction jobs arbitrary: i)
  case Nil
  show ?case by simp
next
  case (Cons job jobs)
  from runJob_settles obtain r evs where
    j: "runJob (readFile w) (job_env_of w i) job closeTab = Some (r, evs)" by blast
  from Cons.IH [of "Suc i"] obtain rs errs where
    ih: "runParallel w closeTab (Suc i) jobs = Some (rs, errs)" "length rs = length jobs"
      "\<forall>k < length jobs. \<exists>r evs. rs ! k = (jobs ! k, r, evs)
            \<and> runJob (readFile w) (job_env_of w (Suc i + k)) (jobs ! k) closeTab = Some (r, evs)"
      "errs = [] \<longleftrightarrow> (\<forall>k < length jobs. fst (snd (rs ! k)) = Inr ())"
    by blast
  let ?rs = "(job, r, evs) # rs"
  let ?errs = "(case r of Inl err \<Rightarrow> [err] | Inr u \<Rightarrow> []) @ errs"
  have 1: "runParallel w closeTab i (job # jobs) = Some (?rs, ?errs)" using j ih(1) by simp
  have 2: "length ?rs = length (job # jobs)" using ih(2) by simp
  have 3: "\<forall>k < length (job # jobs). \<exists>r evs. ?rs ! k = ((job # jobs) ! k, r, evs)
            \<and> runJob (readFile w) (job_env_of w (i + k)) ((job # jobs) ! k) closeTab = Some (r, evs)"
  proof (intro allI impI)
    fix k assume k: "k < length (job # jobs)"
    show "\<exists>r evs. ?rs ! k = ((job # jobs) ! k, r, evs)
            \<and> runJob (readFile w) (job_env_of w (i + k)) ((job # jobs) ! k) closeTab = Some (r, evs)"
    proof (cases k)
      case 0
      with j show ?thesis by simp
    next
      case (Suc m)
      with k ih(3) show ?thesis by simp
    qed
  qed
  have 4: "?errs = [] \<longleftrightarrow> (\<forall>k < length (job # jobs). fst (snd (?rs ! k)) = Inr ())"
  proof
    assume e: "?errs = []"
    then have r: "r = Inr ()" and "errs = []" by (auto split: sum.splits)
    with ih(4) have rest: "\<forall>k < length jobs. fst (snd (rs ! k)) = Inr ()" by simp
    show "\<forall>k < length (job # jobs). fst (snd (?rs ! k)) = Inr ()"
    proof (intro allI impI)
      fix k assume "k < length (job # jobs)"
      with r rest show "fst (snd (?rs ! k)) = Inr ()" by (cases k) simp_all
    qed
  next
    assume a: "\<forall>k < length (job # jobs). fst (snd (?rs ! k)) = Inr ()"
    then have "fst (snd (?rs ! 0)) = Inr ()" by (simp del: nth_Cons_0)
    then have r: "r = Inr ()" by simp
    have "\<forall>k < length jobs. fst (snd (rs ! k)) = Inr ()"
    proof (intro allI impI)
      fix k assume "k < length jobs"
      then have "Suc k < length (job # jobs)" by simp
      with a have "fst (snd (?rs ! Suc k)) = Inr ()" by blast
      then show "fst (snd (rs ! k)) = Inr ()" by simp
    qed
    with ih(4) r show "?errs = []" by simp
  qed
  from 1 2 3 4 show ?case by blast
qed

lemma runSequential_prefix:
  "\<exists>rs out n. runSequential w closeTab i jobs = Some (rs, out)
      \<and> n \<le> length jobs \<and> length rs = n
      \<and> (\<forall>k < n. \<exists>r evs. rs ! k = (jobs ! k, r, evs)
            \<and> runJob (readFile w) (job_env_of w (i + k)) (jobs ! k) closeTab = Some (r, evs)
            \<and> (Suc k < n \<longrightarrow> r = Inr ()))
      \<and> (n = length jobs \<and> (n = 0 \<or> fst (snd (rs ! (n - 1))) = Inr ()) \<longrightarrow> out = Resolved)
      \<and> (n < length jobs \<or> out \<noteq> Resolved \<longrightarrow>
            0 < n \<and> (\<exists>err. fst (snd (rs ! (n - 1))) = Inl err \<and> out = Rejected [err]))"
proof (induction jobs arbitrary: i)
  case Nil
  show ?case by simp
next
  case (Cons job jobs)
  from runJob_settles obtain r evs where
    j: "runJob (readFile w) (job_env_of w i) job closeTab = Some (r, evs)" by blast
  show ?case
  proof (cases r)
    case (Inl err)
    with j have "runSequential w closeTab i (job # jobs) = Some ([(job, Inl err, evs)], Rejected [err])"
      by simp
    with j Inl show ?thesis
      by (intro exI [of _ "[(job, Inl err, evs)]"] exI [of _ "Rejected [err]"] exI [of _ 1]) simp
  next
    case (Inr u)
    from Cons.IH [of "Suc i"] obtain rs out n where
      ih: "runSequential w closeTab (Suc i) jobs = Some (rs, out)" "n \<le> length jobs" "length rs = n"
        "\<forall>k < n. \<exists>r evs. rs ! k = (jobs ! k, r, evs)
            \<and> runJob (readFile w) (job_env_of w (Suc i + k)) (jobs ! k) closeTab = Some (r, evs)
            \<and> (Suc k < n \<longrightarrow> r = Inr ())"
        "n = length jobs \<and> (n = 0 \<or> fst (snd (rs ! (n - 1))) = Inr ()) \<longrightarrow> out = Resolved"
        "n < length jobs \<or> out \<noteq> Resolved \<longrightarrow>
            0 < n \<and> (\<exists>err. fst (snd (rs ! (n - 1))) = Inl err \<and> out = Rejected [err])"
      by blast
    let ?rs = "(job, Inr (), evs) # rs"
    have 1: "runSequential w closeTab i (job # jobs) = Some (?rs, out)" using j Inr ih(1) by simp
    have 2: "Suc n \<le> length (job # jobs)" "length ?rs = Suc n" using ih(2,3) by simp_all
    have 3: "\<forall>k < Suc n. \<exists>r evs. ?rs ! k = ((job # jobs) ! k, r, evs)
            \<and> runJob (readFile w) (job_env_of w (i + k)) ((job # jobs) ! k) closeTab = Some (r, evs)
            \<and> (Suc k < Suc n \<longrightarrow> r = Inr ())"
    proof (intro allI impI)
      fix k assume k: "k < Suc n"
      show "\<exists>r evs. ?rs ! k = ((job # jobs) ! k, r, evs)
            \<and> runJob (readFile w) (job_env_of w (i + k)) ((job # jobs) ! k) closeTab = Some (r, evs)
            \<and> (Suc k < Suc n \<longrightarrow> r = Inr ())"
      proof (cases k)
        case 0
        with j Inr show ?thesis by simp
      next
        case (Suc m)
        with k ih(4) show ?thesis by simp
      qed
    qed
    have last: "fst (snd (?rs ! (Suc n - 1))) = (if n = 0 then Inr () else fst (snd (rs ! (n - 1))))"
      by (cases n) simp_all
    have 4: "Suc n = length (job # jobs) \<and> (Suc n = 0 \<or> fst (snd (?rs ! (Suc n - 1))) = Inr ())
        \<longrightarrow> out = Resolved"
      using ih(5) last by (cases "n = 0") simp_all
    have 5: "Suc n < length (job # jobs) \<or> out \<noteq> Resolved \<longrightarrow>
            0 < Suc n \<and> (\<exists>err. fst (snd (?rs ! (Suc n - 1))) = Inl err \<and> out = Rejected [err])"
      using ih(6) last by (cases "n = 0") auto
    from 1 2 3 4 5 show ?thesis by blast
  qed
qed

lemma resolveJobs_eq:
  "resolveJobs rf jobs
     = (map (WarnSkipping \<circ> docUrl) (filter (\<lambda>j. jobContent rf j = []) jobs),
        map (resolveJob rf) (filter (\<lambda>j. jobContent rf j \<noteq> []) jobs))"
  by (induction jobs) (simp_all add: Let_def resolveJob_def)

lemma filter_filter_same: "filter P (filter P xs) = filter P xs"
  by (induction xs) simp_all

lemma filter_not_filter: "filter (\<lambda>x. \<not> P x) (filter P xs) = []"
  by (induction xs) simp_all

lemma resolveJobs_filtered:
  "snd (resolveJobs rf (filter (\<lambda>j. jobContent rf j \<noteq> []) jobs)) = snd (resolveJobs rf jobs)"
  "fst (resolveJobs rf (filter (\<lambda>j. jobContent rf j \<noteq> []) jobs)) = []"
  using filter_not_filter [of "\<lambda>j. jobContent rf j \<noteq> []" jobs]
  by (simp_all add: resolveJobs_eq filter_filter_same)

lemma runAgent_settles: "\<exists>res. runAgent w jobs ro = Some res"
proof -
  obtain ws rjs where r: "resolveJobs (readFile w) jobs = (ws, rjs)" by (cases "resolveJobs (readFile w) jobs")
  from runSequential_prefix obtain rs out where
    s: "runSequential w (length rjs > 1 \<and> closeTabOnComplete ro) 0 rjs = Some (rs, out)" by blast
  from runParallel_all obtain rs' errs where
    p: "runParallel w (closeTabOnComplete ro) 0 rjs = Some (rs', errs)" by blast
  from r s p show ?thesis by (simp add: runAgent_def split: option.splits)
qed

lemma runAgent_resolved:
  assumes "runAgent w jobs ro = Some res"
  shows "resolved res = snd (resolveJobs (readFile w) jobs)"
    and "filter isWarning (console res) = fst (resolveJobs (readFile w) jobs)"
proof -
  obtain ws rjs where r: "resolveJobs (readFile w) jobs = (ws, rjs)" by (cases "resolveJobs (readFile w) jobs")
  then have "ws = map (WarnSkipping \<circ> docUrl) (filter (\<lambda>j. jobContent (readFile w) j = []) jobs)"
    by (simp add: resolveJobs_eq)
  then have f: "filter isWarning ws = ws" by (simp add: filter_map comp_def)
  from assms r show "resolved res = snd (resolveJobs (readFile w) jobs)"
    by (auto simp: runAgent_def split: option.splits if_splits)
  from assms r f show "filter isWarning (console res) = fst (resolveJobs (readFile w) jobs)"
    by (auto simp: runAgent_def split: option.splits if_splits)
qed

lemma runAgent_runs:
  assumes "runAgent w jobs ro = Some res"
  shows "runs res = (if resolved res = [] \<or> launch_error w \<noteq> None then []
                     else if sequential ro
                       then fst (the (runSequential w (length (resolved res) > 1 \<and> closeTabOnComplete ro) 0 (resolved res)))
                       else fst (the (runParallel w (closeTabOnComplete ro) 0 (resolved res))))"
    and "outcome res = (if resolved res = [] then Resolved
                     else case launch_error w of Some err \<Rightarrow> Rejected [err] | None \<Rightarrow>
                       if sequential ro
                       then snd (the (runSequential w (length (resolved res) > 1 \<and> closeTabOnComplete ro) 0 (resolved res)))
                       else (if snd (the (runParallel w (closeTabOnComplete ro) 0 (resolved res))) = [] then Resolved
                             else Rejected (snd (the (runParallel w (closeTabOnComplete ro) 0 (resolved res))))))"
proof -
  obtain ws rjs where r: "resolveJobs (readFile w) jobs = (ws, rjs)" by (cases "resolveJobs (readFile w) jobs")
  from assms r show "runs res = (if resolved res = [] \<or> launch_error w \<noteq> None then []
                     else if sequential ro
                       then fst (the (runSequential w (length (resolved res) > 1 \<and> closeTabOnComplete ro) 0 (resolved res)))
                       else fst (the (runParallel w (closeTabOnComplete ro) 0 (resolved res))))"
    by (auto simp: runAgent_def split: option.splits if_splits)
  from assms r show "outcome res = (if resolved res = [] then Resolved
                     else case launch_error w of Some err \<Rightarrow> Rejected [err] | None \<Rightarrow>
                       if sequential ro
                       then snd (the (runSequential w (length (resolved res) > 1 \<and> closeTabOnComplete ro) 0 (resolved res)))
                       else (if snd (the (runParallel w (closeTabOnComplete ro) 0 (resolved res))) = [] then Resolved
                             else Rejected (snd (the (runParallel w (closeTabOnComplete ro) 0 (resolved res))))))"
    by (auto simp: runAgent_def split: option.splits if_splits)
qed

lemma runs_in_resolved:
  assumes "runAgent w jobs ro = Some res"
  shows "\<forall>run \<in> set (runs res). fst run \<in> set (resolved res)"
    and "launch_error w = None \<and> (\<not> sequential ro \<or> outcome res = Resolved)
          \<longrightarrow> map fst (runs res) = resolved res"
    and "launch_error w = None \<and> resolved res \<noteq> []
          \<longrightarrow> runs res \<noteq> [] \<and> fst (hd (runs res)) = hd (resolved res)"
proof -
  let ?rjs = "resolved res"
  let ?ct = "length ?rjs > 1 \<and> closeTabOnComplete ro"
  from runSequential_prefix [of w ?ct 0 ?rjs] obtain rs out n where
    s: "runSequential w ?ct 0 ?rjs = Some (rs, out)" "n \<le> length ?rjs" "length rs = n"
      "\<forall>k < n. \<exists>r evs. rs ! k = (?rjs ! k, r, evs)
            \<and> runJob (readFile w) (job_env_of w (0 + k)) (?rjs ! k) ?ct = Some (r, evs)
            \<and> (Suc k < n \<longrightarrow> r = Inr ())"
      "n < length ?rjs \<or> out \<noteq> Resolved \<longrightarrow>
            0 < n \<and> (\<exists>err. fst (snd (rs ! (n - 1))) = Inl err \<and> out = Rejected [err])"
    by blast
  from runParallel_all [of w "closeTabOnComplete ro" 0 ?rjs] obtain rs' errs where
    p: "runParallel w (closeTabOnComplete ro) 0 ?rjs = Some (rs', errs)" "length rs' = length ?rjs"
      "\<forall>k < length ?rjs. \<exists>r evs. rs' ! k = (?rjs ! k, r, evs)
            \<and> runJob (readFile w) (job_env_of w (0 + k)) (?rjs ! k) (closeTabOnComplete ro) = Some (r, evs)"
    by blast
  have sfst: "map fst rs = take n ?rjs"
  proof (rule nth_equalityI)
    show "length (map fst rs) = length (take n ?rjs)" using s(2,3) by simp
    fix k assume "k < length (map fst rs)"
    with s(3,4) show "map fst rs ! k = take n ?rjs ! k" by auto
  qed
  have pfst: "map fst rs' = ?rjs"
  proof (rule nth_equalityI)
    show "length (map fst rs') = length ?rjs" using p(2) by simp
    fix k assume "k < length (map fst rs')"
    with p(2,3) show "map fst rs' ! k = ?rjs ! k" by auto
  qed
  note rr = runAgent_runs [OF assms]
  have runs_cases: "runs res = [] \<or> runs res = rs \<or> runs res = rs'"
    using rr(1) s(1) p(1) by (auto simp del: One_nat_def split: if_splits)
  show "\<forall>run \<in> set (runs res). fst run \<in> set (resolved res)"
  proof
    fix run assume "run \<in> set (runs res)"
    then have m: "fst run \<in> set (map fst (runs res))" unfolding set_map by (rule imageI)
    from runs_cases have "set (map fst (runs res)) \<subseteq> set (resolved res)"
    proof (elim disjE)
      assume "runs res = []"
      then show ?thesis by simp
    next
      assume "runs res = rs"
      then have "map fst (runs res) = take n (resolved res)" by (simp only: sfst)
      then show ?thesis by (simp only: set_take_subset)
    next
      assume "runs res = rs'"
      then have "map fst (runs res) = resolved res" by (simp only: pfst)
      then show ?thesis by simp
    qed
    with m show "fst run \<in> set (resolved res)" by blast
  qed
  show "launch_error w = None \<and> (\<not> sequential ro \<or> outcome res = Resolved)
          \<longrightarrow> map fst (runs res) = resolved res"
  proof
    assume "launch_error w = None \<and> (\<not> sequential ro \<or> outcome res = Resolved)"
    then have le: "launch_error w = None" and a: "\<not> sequential ro \<or> outcome res = Resolved"
      by simp_all
    show "map fst (runs res) = resolved res"
    proof (cases "?rjs = []")
      case True
      with rr(1) show ?thesis by simp
    next
      case ne: False
      show ?thesis
      proof (cases "sequential ro")
        case False
        with le ne rr(1) p(1) pfst show ?thesis by simp
      next
        case True
        with le ne rr s(1) have "runs res = rs" "outcome res = out" by (simp_all del: One_nat_def)
        with a True have "runs res = rs" "out = Resolved" by simp_all
        with s(2,5) sfst show ?thesis by (cases "n < length ?rjs") auto
      qed
    qed
  qed
  show "launch_error w = None \<and> resolved res \<noteq> []
          \<longrightarrow> runs res \<noteq> [] \<and> fst (hd (runs res)) = hd (resolved res)"
  proof
    assume "launch_error w = None \<and> resolved res \<noteq> []"
    then have le: "launch_error w = None" and a: "resolved res \<noteq> []" by simp_all
    show "runs res \<noteq> [] \<and> fst (hd (runs res)) = hd (resolved res)"
    proof (cases "sequential ro")
      case False
      with le a rr(1) p(1) have "runs res = rs'" by simp
      moreover from a p(2) have "rs' \<noteq> []" by auto
      moreover from this have "fst (hd rs') = hd (map fst rs')" by (simp add: hd_map)
      ultimately show ?thesis using pfst by simp
    next
      case True
      with le a rr(1) s(1) have r: "runs res = rs" by (simp del: One_nat_def)
      have "0 < n"
      proof (cases "n < length ?rjs")
        case True
        with s(5) show ?thesis by simp
      next
        case False
        with s(2) a show ?thesis by simp
      qed
      with s(3) have ne: "rs \<noteq> []" by auto
      then have "fst (hd rs) = hd (map fst rs)" by (simp add: hd_map)
      also have "\<dots> = hd (take n ?rjs)" by (simp only: sfst)
      also have "\<dots> = hd ?rjs" using \<open>0 < n\<close> by (cases n; cases ?rjs) simp_all
      finally show ?thesis using r ne by simp
    qed
  qed
qed

lemma batch_content:
  "jobContent rf (inlineJob (js ''Hello'') (js ''doc-a'')) = js ''Hello''"
  "jobContent rf (inlineJob (js '' '') (js ''doc-x'')) = []"
  "jobContent rf (inlineJob (js ''Hi'') (js ''doc-b'')) = js ''Hi''"
  by (simp_all add: jobContent_def inlineJob_def trim_def js_def isWhiteSpace_def)

lemma batch_urls:
  "normalizeDocUrl (js ''doc-a'') = js ''doc-a''"
  "normalizeDocUrl (js ''doc-b'') = js ''doc-b''"
  by (simp_all add: normalizeDocUrl_def trim_def js_def isWhiteSpace_def startsWith_def
      str_includes_def sublist_code isShortForm_def Let_def)




section \<open>Orchestration: claims\<close>

text \<open>
  Claim C6. \<open>runAgent\<close> always settles. The jobs it resolves are exactly the descriptors
  whose resolved, trimmed content is not empty, in their order, each with its content and
  its normalized target; every other descriptor yields one warning and nothing else. Only
  resolved jobs are executed; when the browser launches and a job remains, execution
  begins with the first of them, and all of them are executed in concurrent mode and in a
  sequential run that resolves. The descriptors with empty content have no effect on what
  is executed: the batch without them has the same resolved jobs, runs and outcome.
\<close>

theorem empty_content_excluded:
  "\<exists>res. runAgent w jobs ro = Some res
     \<and> resolved res
         = map (resolveJob (readFile w)) (filter (\<lambda>j. jobContent (readFile w) j \<noteq> []) jobs)
     \<and> filter isWarning (console res)
         = map (WarnSkipping \<circ> docUrl) (filter (\<lambda>j. jobContent (readFile w) j = []) jobs)
     \<and> (\<forall>run \<in> set (runs res). fst run \<in> set (resolved res))
     \<and> (launch_error w = None \<and> (\<not> sequential ro \<or> outcome res = Resolved)
           \<longrightarrow> map fst (runs res) = resolved res)
     \<and> (launch_error w = None \<and> resolved res \<noteq> []
           \<longrightarrow> runs res \<noteq> [] \<and> fst (hd (runs res)) = hd (resolved res))
     \<and> (\<exists>res'. runAgent w (filter (\<lambda>j. jobContent (readFile w) j \<noteq> []) jobs) ro = Some res'
           \<and> resolved res' = resolved res \<and> runs res' = runs res \<and> outcome res' = outcome res)"
proof -
  let ?kept = "filter (\<lambda>j. jobContent (readFile w) j \<noteq> []) jobs"
  from runAgent_settles obtain res where res: "runAgent w jobs ro = Some res" by blast
  from runAgent_settles obtain res' where res': "runAgent w ?kept ro = Some res'" by blast
  have 1: "resolved res = map (resolveJob (readFile w)) ?kept"
    using runAgent_resolved(1) [OF res] by (simp add: resolveJobs_eq)
  have 2: "filter isWarning (console res)
      = map (WarnSkipping \<circ> docUrl) (filter (\<lambda>j. jobContent (readFile w) j = []) jobs)"
    using runAgent_resolved(2) [OF res] by (simp add: resolveJobs_eq)
  have same: "resolved res' = resolved res"
    using runAgent_resolved(1) [OF res'] runAgent_resolved(1) [OF res]
    by (simp add: resolveJobs_filtered)
  have 3: "runs res' = runs res" "outcome res' = outcome res"
    using runAgent_runs [OF res'] runAgent_runs [OF res] unfolding same by simp_all
  from res res' 1 2 same 3 runs_in_resolved [OF res] show ?thesis by blast
qed

theorem empty_content_excluded_witness:
  "\<exists>res. runAgent quietWorld batch \<lparr>sequential = False, closeTabOnComplete = False\<rparr> = Some res
     \<and> resolved res = [(inlineJob (js ''Hello'') (js ''doc-a''))\<lparr>essay := Some (js ''Hello'')\<rparr>,
                       (inlineJob (js ''Hi'') (js ''doc-b''))\<lparr>essay := Some (js ''Hi'')\<rparr>]
     \<and> filter isWarning (console res) = [WarnSkipping (js ''doc-x'')]
     \<and> map fst (runs res) = resolved res"
proof -
  let ?ro = "\<lparr>sequential = False, closeTabOnComplete = False\<rparr>"
  from empty_content_excluded [of quietWorld batch ?ro] obtain res where
    res: "runAgent quietWorld batch ?ro = Some res"
    and r: "resolved res = map (resolveJob (readFile quietWorld))
              (filter (\<lambda>j. jobContent (readFile quietWorld) j \<noteq> []) batch)"
    and c: "filter isWarning (console res)
         = map (WarnSkipping \<circ> docUrl) (filter (\<lambda>j. jobContent (readFile quietWorld) j = []) batch)"
    and a: "launch_error quietWorld = None \<and> (\<not> sequential ?ro \<or> outcome res = Resolved)
           \<longrightarrow> map fst (runs res) = resolved res"
    by blast
  have ne: "js ''Hello'' \<noteq> []" "js ''Hi'' \<noteq> []" by (simp_all add: js_def)
  from r have 1: "resolved res = [(inlineJob (js ''Hello'') (js ''doc-a''))\<lparr>essay := Some (js ''Hello'')\<rparr>,
                       (inlineJob (js ''Hi'') (js ''doc-b''))\<lparr>essay := Some (js ''Hi'')\<rparr>]"
    by (simp add: batch_def batch_content ne resolveJob_def)
       (simp add: inlineJob_def batch_urls)
  from c have 2: "filter isWarning (console res) = [WarnSkipping (js ''doc-x'')]"
    by (simp add: batch_def batch_content ne) (simp add: inlineJob_def)
  from a have 3: "map fst (runs res) = resolved res" by (simp add: quietWorld_def)
  from res 1 2 3 show ?thesis by blast
qed




end
